theory Spec2Isabelle
  imports Main "HOL-Library.Word" "HOL-Library.AList" "HOL-Library.Sublist"
begin

section \<open>Strings\<close>

text \<open>
  A JavaScript string is a sequence of UTF-16 code units. The program only concatenates
  strings, compares them, splits them at one code unit and joins them, so a string is
  modelled as a list of 16-bit words. \<open>js\<close> writes an ASCII literal.
\<close>

type_synonym jsstring = "16 word list"

definition js :: "string \<Rightarrow> jsstring" where
  "js s = map (\<lambda>c. of_nat (of_char c)) s"

definition slash :: "16 word" where
  "slash = 0x2F"

definition newline :: "16 word" where
  "newline = 0x0A"

text \<open>
  \<open>s.split(sep)\<close> for a separator of one code unit. The result is never empty, so
  that \<open>split(sep)[0]\<close> is the head of a list that has one.
\<close>

fun js_split :: "'a \<Rightarrow> 'a list \<Rightarrow> 'a list list" where
  "js_split sep [] = [[]]"
| "js_split sep (c # cs) =
     (if c = sep then [] # js_split sep cs
      else (case js_split sep cs of [] \<Rightarrow> [[c]] | s # ss \<Rightarrow> (c # s) # ss))"

text \<open>\<open>xs.join(sep)\<close>.\<close>

fun js_join :: "'a list \<Rightarrow> 'a list list \<Rightarrow> 'a list" where
  "js_join sep [] = []"
| "js_join sep [x] = x"
| "js_join sep (x # y # ys) = x @ sep @ js_join sep (y # ys)"

text \<open>The decimal numeral that a template literal prints for a length.\<close>

definition digit :: "nat \<Rightarrow> 16 word" where
  "digit d = of_nat (48 + d)"

function toString :: "nat \<Rightarrow> jsstring" where
  "toString n = (if n < 10 then [digit n] else toString (n div 10) @ [digit (n mod 10)])"
  by pat_completeness auto
termination
  by (relation "measure (\<lambda>n. n)") auto

section \<open>Objects used as trees\<close>

text \<open>
  \<open>buildTree\<close> makes every node with the literal \<open>{}\<close>: an ordinary object whose own
  properties are the segments seen so far, each holding another such object. A node is
  the list of its own properties in the order of their creation.
\<close>

datatype tree = Node "(jsstring \<times> tree) list"

fun props :: "tree \<Rightarrow> (jsstring \<times> tree) list" where
  "props (Node kvs) = kvs"

text \<open>
  The order in which \<open>Object.keys\<close> lists own properties: the keys that are array indices
  (canonical decimal numerals below \<open>2^32 - 1\<close>) first, in ascending numeric order, then
  the other keys in the order of their creation.
\<close>

definition is_digit :: "16 word \<Rightarrow> bool" where
  "is_digit c = (0x30 \<le> c \<and> c \<le> 0x39)"

definition numeric_value :: "jsstring \<Rightarrow> int" where
  "numeric_value s = fold (\<lambda>c n. 10 * n + (uint c - 48)) s 0"

definition is_array_index :: "jsstring \<Rightarrow> bool" where
  "is_array_index s =
     (s \<noteq> [] \<and> list_all is_digit s \<and> (if hd s = 0x30 then length s = 1 else True)
      \<and> numeric_value s < 4294967295)"

definition key_order :: "jsstring list \<Rightarrow> jsstring list" where
  "key_order ks = sort_key numeric_value (filter is_array_index ks)
                  @ filter (\<lambda>k. \<not> is_array_index k) ks"

definition Object_keys :: "tree \<Rightarrow> jsstring list" where
  "Object_keys t = key_order (map fst (props t))"

text \<open>\<open>tree[key]\<close> for an own property.\<close>

definition own :: "tree \<Rightarrow> jsstring \<Rightarrow> tree option" where
  "own t key = map_of (props t) key"

text \<open>
  The properties that every object made by \<open>{}\<close> inherits from \<open>Object.prototype\<close>
  in a browser, on a page where nothing has added to them. Each holds a function (or, for \<open>__proto__\<close>, the prototype object), so
  \<open>node[part]\<close> is truthy for these names although the node has no such own property.
\<close>

definition Object_prototype_names :: "jsstring list" where
  "Object_prototype_names =
     [js ''constructor'', js ''hasOwnProperty'', js ''isPrototypeOf'',
      js ''propertyIsEnumerable'', js ''toLocaleString'', js ''toString'', js ''valueOf'',
      js ''__proto__'', js ''__defineGetter__'', js ''__defineSetter__'',
      js ''__lookupGetter__'', js ''__lookupSetter__'']"

section \<open>The page outside the tree\<close>

text \<open>
  The built-in objects of the page are no part of the source. The program reaches them in
  one way only: \<open>node[part]\<close> on a node that has no own property \<open>part\<close> yields what the
  node inherits from \<open>Object.prototype\<close>. On a page that the program has not touched
  these are the twelve names above. From there on the cursor of the walk is at an object
  that is not a node of the tree, and what the rest of the walk does there (it enters
  properties of built-in objects, adds properties to them, or throws) is given by the
  page, not by the source. It is a parameter of the model, the \<^emph>\<open>host\<close>:

  \<^item> \<open>leave page part parts\<close> is the rest of a walk whose cursor has left the tree through
    the inherited property \<open>part\<close> with the segments \<open>parts\<close> still to come: an exception, or
    the state of the page after it;
  \<^item> \<open>added h\<close> are the enumerable properties that \<open>Object.prototype\<close> has in the state
    \<open>h\<close> beyond the twelve, each holding an object outside the tree;
  \<^item> \<open>turns h tree\<close> is what the \<open>for ... in\<close> loops of the three calls of
    \<open>removeKeyRecursively\<close> on \<open>tree\<close> do in their turns for such inherited properties:
    an exception, or the state of the page after them.
\<close>

datatype exn = TypeError | RangeError

datatype error =
    MissingInputError
  | PreconditionError
  | Uncaught exn

datatype 'h page = Pristine | Touched 'h

record 'h host =
  leave :: "'h page \<Rightarrow> jsstring \<Rightarrow> jsstring list \<Rightarrow> exn + 'h"
  added :: "'h \<Rightarrow> jsstring list"
  turns :: "'h \<Rightarrow> tree \<Rightarrow> exn + 'h"

fun inherited :: "'h host \<Rightarrow> 'h page \<Rightarrow> jsstring list" where
  "inherited H Pristine = Object_prototype_names"
| "inherited H (Touched h) = Object_prototype_names @ added H h"

section \<open>buildTree\<close>

text \<open>
  The inner \<open>forEach\<close> of \<open>buildTree\<close>, from the node the cursor is at. An own property
  is entered; a missing one is created at the end of the node and entered. Where the part
  names an inherited property, \<open>!node[part]\<close> is false, nothing is created, and the cursor
  moves to the inherited object: at the last part that is the end of the walk, and tree
  and page are as before; with parts left the walk goes on outside the tree, as the host
  has it, and the tree stays as it is at that moment. An exception ends the run.
\<close>

fun walk :: "'h host \<Rightarrow> jsstring list \<Rightarrow> tree \<Rightarrow> 'h page \<Rightarrow> error + tree \<times> 'h page" where
  "walk H [] node page = Inr (node, page)"
| "walk H (part # parts) (Node kvs) page =
     (case map_of kvs part of
        Some child \<Rightarrow>
          (case walk H parts child page of
             Inl e \<Rightarrow> Inl e
           | Inr (child', page') \<Rightarrow> Inr (Node (AList.update part child' kvs), page'))
      | None \<Rightarrow>
          if part \<in> set (inherited H page)
          then (if parts = [] then Inr (Node kvs, page)
                else (case leave H page part parts of
                        Inl e \<Rightarrow> Inl (Uncaught e)
                      | Inr h \<Rightarrow> Inr (Node kvs, Touched h)))
          else (case walk H parts (Node []) page of
                  Inl e \<Rightarrow> Inl e
                | Inr (child', page') \<Rightarrow> Inr (Node (kvs @ [(part, child')]), page')))"

fun buildFrom :: "'h host \<Rightarrow> jsstring list \<Rightarrow> tree \<Rightarrow> 'h page \<Rightarrow> error + tree \<times> 'h page" where
  "buildFrom H [] tree page = Inr (tree, page)"
| "buildFrom H (path # filePaths) tree page =
     (case walk H (js_split slash path) tree page of
        Inl e \<Rightarrow> Inl e
      | Inr (tree', page') \<Rightarrow> buildFrom H filePaths tree' page')"

definition buildTree :: "'h host \<Rightarrow> jsstring list \<Rightarrow> 'h page \<Rightarrow> error + tree \<times> 'h page" where
  "buildTree H filePaths page = buildFrom H filePaths (Node []) page"

section \<open>removeKeyRecursively\<close>

text \<open>
  The \<open>for ... in\<close> loop deletes the key that equals \<open>keyToRemove\<close> and visits the
  object under every other key; the keys that stay keep their order. These are the turns
  of the loop for the own properties of the nodes, which are all its turns unless
  \<open>Object.prototype\<close> has enumerable properties; the turns for those are with the host.
\<close>

function removeKeyRecursively :: "tree \<Rightarrow> jsstring \<Rightarrow> tree" where
  "removeKeyRecursively (Node kvs) keyToRemove =
     Node (map (\<lambda>kv. (fst kv, removeKeyRecursively (snd kv) keyToRemove))
               (filter (\<lambda>kv. fst kv \<noteq> keyToRemove) kvs))"
  by pat_completeness auto
termination
proof (relation "measure (\<lambda>(t, k). size t)", goal_cases)
  case 1
  show ?case by simp
next
  case (2 kvs keyToRemove kv)
  have "size c < Suc (size_list (size_prod (\<lambda>_. 0) size) xs)" if "(k, c) \<in> set xs"
    for k :: jsstring and c :: tree and xs
    using that by (induction xs) auto
  moreover from 2 have "(fst kv, snd kv) \<in> set kvs" by simp
  ultimately show ?case by fastforce
qed

section \<open>treeToString\<close>

text \<open>
  The connectors: U+251C or U+2514, twice U+2500 and a space; the indentation of a
  child: U+2502 and three spaces, or four spaces. The loop runs over \<open>Object.keys(tree)\<close>
  with the index of each key, so \<open>tree[key]\<close> is always an own property: the branch
  \<open>None\<close> below is never taken.
\<close>

definition tee :: jsstring where
  "tee = [0x251C, 0x2500, 0x2500, 0x20]"

definition elbow :: jsstring where
  "elbow = [0x2514, 0x2500, 0x2500, 0x20]"

definition bar :: jsstring where
  "bar = [0x2502, 0x20, 0x20, 0x20]"

definition blank :: jsstring where
  "blank = [0x20, 0x20, 0x20, 0x20]"

function treeToString :: "tree \<Rightarrow> jsstring \<Rightarrow> jsstring list" where
  "treeToString tree indent =
     (let keys = Object_keys tree in
      fold (\<lambda>ik lines.
              let isLast = (fst ik = length keys - 1);
                  prefix = (if isLast then indent @ elbow else indent @ tee);
                  lines' = lines @ [prefix @ snd ik]
              in case own tree (snd ik) of
                   None \<Rightarrow> lines'
                 | Some children \<Rightarrow>
                     if length (Object_keys children) > 0
                     then lines' @ treeToString children (indent @ (if isLast then blank else bar))
                     else lines')
           (enumerate 0 keys) [])"
  by pat_completeness auto
termination
proof (relation "measure (\<lambda>(t, i). size t)", goal_cases)
  case 1
  show ?case by simp
next
  case (2 tree indent keys ik lines isLast prefix lines' children)
  have "size c < Suc (size_list (size_prod (\<lambda>_. 0) size) xs)" if "(k, c) \<in> set xs"
    for k :: jsstring and c :: tree and xs
    using that by (induction xs) auto
  moreover from 2 have "(snd ik, children) \<in> set (props tree)"
    by (auto simp: own_def dest: map_of_SomeD)
  ultimately show ?case by (cases tree) fastforce
qed

section \<open>handlePreview\<close>

text \<open>
  A \<open>FileList\<close> is the list of the \<open>webkitRelativePath\<close>s of its files; a state variable
  of type \<open>FileList | null\<close> is an option. Of the state of the component, the four
  variables below are modelled; the progress bar and the deferral of the scan by
  \<open>setTimeout\<close> change none of them.
\<close>

definition autoIgnored :: "jsstring list" where
  "autoIgnored = [js ''node_modules'', js ''.git'', js ''.DS_Store'']"

text \<open>The first segments of the files selected to be ignored (\<open>parts[0]\<close>).\<close>

definition firstPart :: "jsstring \<Rightarrow> jsstring" where
  "firstPart relPath = hd (js_split slash relPath)"

definition userIgnored :: "jsstring list option \<Rightarrow> jsstring list" where
  "userIgnored ignoreFiles =
     (case ignoreFiles of None \<Rightarrow> [] | Some files \<Rightarrow> map firstPart files)"

text \<open>The second variant of the component keeps a list of ignore inputs.\<close>

definition userIgnoredList :: "jsstring list option list \<Rightarrow> jsstring list" where
  "userIgnoredList ignoreFoldersList = concat (map userIgnored ignoreFoldersList)"

definition ignoreFolders :: "jsstring list \<Rightarrow> jsstring set" where
  "ignoreFolders user = set user \<union> set autoIgnored"

text \<open>The loop over the project files, which pushes the paths that are kept.\<close>

fun scan :: "jsstring set \<Rightarrow> jsstring list \<Rightarrow> jsstring list \<Rightarrow> jsstring list" where
  "scan ignored [] filePaths = filePaths"
| "scan ignored (relPath # files) filePaths =
     (if firstPart relPath \<notin> ignored
      then scan ignored files (filePaths @ [relPath])
      else scan ignored files filePaths)"

definition prune :: "tree \<Rightarrow> tree" where
  "prune tree =
     removeKeyRecursively
       (removeKeyRecursively (removeKeyRecursively tree (js ''node_modules'')) (js ''.git''))
       (js ''.DS_Store'')"

text \<open>
  The three calls on the page as \<open>buildTree\<close> left it. Where \<open>Object.prototype\<close> has
  no enumerable property the loops have no turns but those for own properties; where it
  has, the further turns are the host's, and they throw or leave the tree to the turns
  for the own properties.
\<close>

definition pruneOn :: "'h host \<Rightarrow> tree \<Rightarrow> 'h page \<Rightarrow> error + tree" where
  "pruneOn H tree page =
     (case page of
        Pristine \<Rightarrow> Inr (prune tree)
      | Touched h \<Rightarrow>
          if added H h = [] then Inr (prune tree)
          else (case turns H h tree of
                  Inl e \<Rightarrow> Inl (Uncaught e)
                | Inr h' \<Rightarrow> Inr (prune tree)))"

definition structureLines :: "jsstring \<Rightarrow> tree \<Rightarrow> jsstring list" where
  "structureLines rootFolder tree = [rootFolder] @ treeToString tree []"

definition previewOf :: "jsstring \<Rightarrow> jsstring" where
  "previewOf structureText =
     (let lines = js_split newline structureText;
          preview = js_join [newline] (take 100 lines)
      in if length lines > 100
         then preview @ [newline] @ js ''... (truncated, total '' @ toString (length lines)
              @ js '' lines)''
         else preview)"

record preview_state =
  rootFolderName :: jsstring
  "structure" :: jsstring
  previewContent :: jsstring
  showGenerateButton :: bool

text \<open>
  The work of \<open>handlePreview\<close> once the set of ignored names is known, on a page that
  the program has not touched yet. The alert for a missing selection is
  \<open>MissingInputError\<close>; the state is then left as it was. An exception in the deferred
  part of the handler is not caught: no structure and no preview are set.
\<close>

definition preview ::
  "'h host \<Rightarrow> jsstring list option \<Rightarrow> jsstring list \<Rightarrow> error + preview_state" where
  "preview H projectFiles user =
     (case projectFiles of
        None \<Rightarrow> Inl MissingInputError
      | Some [] \<Rightarrow> Inl MissingInputError
      | Some (firstFilePath # others) \<Rightarrow>
          (let rootFolder = firstPart firstFilePath;
               filePaths = scan (ignoreFolders user) (firstFilePath # others) []
           in case buildTree H filePaths Pristine of
                Inl e \<Rightarrow> Inl e
              | Inr (tree, page) \<Rightarrow>
                  (case pruneOn H tree page of
                     Inl e \<Rightarrow> Inl e
                   | Inr pruned \<Rightarrow>
                       (let structureText = js_join [newline] (structureLines rootFolder pruned)
                        in Inr \<lparr>rootFolderName = rootFolder, structure = structureText,
                                previewContent = previewOf structureText,
                                showGenerateButton = True\<rparr>))))"

definition handlePreview ::
  "'h host \<Rightarrow> jsstring list option \<Rightarrow> jsstring list option \<Rightarrow> error + preview_state" where
  "handlePreview H projectFiles ignoreFiles = preview H projectFiles (userIgnored ignoreFiles)"

definition handlePreviewList ::
  "'h host \<Rightarrow> jsstring list option \<Rightarrow> jsstring list option list \<Rightarrow> error + preview_state" where
  "handlePreviewList H projectFiles ignoreFoldersList =
     preview H projectFiles (userIgnoredList ignoreFoldersList)"

section \<open>handleGenerateReadme\<close>

definition fence :: jsstring where
  "fence = js ''```''"

definition heading :: jsstring where
  "heading = js ''# Project File and Folder Structure''"

definition readmeContent :: "jsstring \<Rightarrow> jsstring" where
  "readmeContent structureText =
     heading @ [newline, newline] @ js ''Below is the structure of the project:''
     @ [newline, newline] @ fence @ [newline] @ structureText @ [newline] @ fence"

definition handleGenerateReadme :: "jsstring \<Rightarrow> jsstring \<Rightarrow> error + jsstring" where
  "handleGenerateReadme structureText folderName =
     (if structureText = [] \<or> folderName = [] then Inl PreconditionError
      else Inr (readmeContent structureText))"

section \<open>Vocabulary of the properties\<close>

text \<open>The keys of a tree at every depth, and the node that a list of segments leads to.\<close>

function all_keys :: "tree \<Rightarrow> jsstring list" where
  "all_keys (Node kvs) = concat (map (\<lambda>kv. fst kv # all_keys (snd kv)) kvs)"
  by pat_completeness auto
termination
proof (relation "measure size", goal_cases)
  case 1
  show ?case by simp
next
  case (2 kvs kv)
  have "size c < Suc (size_list (size_prod (\<lambda>_. 0) size) xs)" if "(k, c) \<in> set xs"
    for k :: jsstring and c :: tree and xs
    using that by (induction xs) auto
  moreover from 2 have "(fst kv, snd kv) \<in> set kvs" by simp
  ultimately show ?case by fastforce
qed

fun subtree :: "tree \<Rightarrow> jsstring list \<Rightarrow> tree option" where
  "subtree t [] = Some t"
| "subtree t (k # ks) = (case own t k of None \<Rightarrow> None | Some c \<Rightarrow> subtree c ks)"

text \<open>
  The lines that one turn of the loop of \<open>treeToString\<close> appends, for the key \<open>snd ik\<close>
  at index \<open>fst ik\<close>: the line of the key, then the lines of its children.
\<close>

definition block :: "tree \<Rightarrow> jsstring \<Rightarrow> nat \<times> jsstring \<Rightarrow> jsstring list" where
  "block tree indent ik =
     (let isLast = (fst ik = length (Object_keys tree) - 1) in
      (indent @ (if isLast then elbow else tee) @ snd ik)
      # (case own tree (snd ik) of
           None \<Rightarrow> []
         | Some children \<Rightarrow>
             if Object_keys children = [] then []
             else treeToString children (indent @ (if isLast then blank else bar))))"

text \<open>
  The segment that follows the segments \<open>pre\<close> in a path, if the path starts with them
  and goes on; the elements of a list in the order of their first occurrence; and the
  segments that follow \<open>pre\<close> in a list of paths, in the order in which they are first
  seen.
\<close>

definition next_segment :: "jsstring list \<Rightarrow> jsstring list \<Rightarrow> jsstring list" where
  "next_segment pre parts =
     (if length pre < length parts \<and> take (length pre) parts = pre
      then [parts ! length pre] else [])"

fun firsts :: "'a list \<Rightarrow> 'a list" where
  "firsts [] = []"
| "firsts (x # xs) = x # filter (\<lambda>y. y \<noteq> x) (firsts xs)"

definition first_seen :: "jsstring list \<Rightarrow> jsstring list \<Rightarrow> jsstring list" where
  "first_seen pre filePaths =
     firsts (concat (map (\<lambda>path. next_segment pre (js_split slash path)) filePaths))"

text \<open>
  The own keys, in the order of their creation, of the node that the segments \<open>pre\<close>
  lead to (none if there is no such node); what creating a key does to such a list; and
  the paths none of whose segments names a property inherited from \<open>Object.prototype\<close>.
\<close>

definition keys_at :: "tree \<Rightarrow> jsstring list \<Rightarrow> jsstring list" where
  "keys_at t pre = (case subtree t pre of None \<Rightarrow> [] | Some n \<Rightarrow> map fst (props n))"

definition add_key :: "jsstring \<Rightarrow> jsstring list \<Rightarrow> jsstring list" where
  "add_key s ks = (if s \<in> set ks then ks else ks @ [s])"

definition clean_paths :: "jsstring list \<Rightarrow> bool" where
  "clean_paths filePaths =
     (\<forall>path \<in> set filePaths. \<forall>part \<in> set (js_split slash path).
        part \<notin> set Object_prototype_names)"

text \<open>
  A host for the instances below. Their paths have no segment that names an inherited
  property, so that the walk never leaves the tree and no host is asked (the results are
  the same with every host); this one would answer every question with an exception.
\<close>

definition unasked :: "unit host" where
  "unasked = \<lparr>leave = (\<lambda>page part parts. Inl TypeError), added = (\<lambda>h. []),
              turns = (\<lambda>h tree. Inl RangeError)\<rparr>"

text \<open>A line that starts with three backticks.\<close>

definition is_fence_line :: "jsstring \<Rightarrow> bool" where
  "is_fence_line line = (take 3 line = fence)"

section \<open>Splitting and joining\<close>

declare treeToString.simps [simp del]
declare toString.simps [simp del]

lemma js_split_nonempty: "js_split sep s \<noteq> []"
  by (induction s) (auto split: list.splits)

lemma js_join_Cons_Cons: "js_join sep ((c # s) # ss) = c # js_join sep (s # ss)"
  by (cases ss) auto

lemma js_join_Nil_Cons: "ss \<noteq> [] \<Longrightarrow> js_join sep ([] # ss) = sep @ js_join sep ss"
  by (cases ss) auto

lemma join_split: "js_join [sep] (js_split sep s) = s"
proof (induction s)
  case Nil
  show ?case by simp
next
  case (Cons c s)
  show ?case
  proof (cases "c = sep")
    case True
    with Cons show ?thesis by (simp add: js_join_Nil_Cons js_split_nonempty)
  next
    case False
    obtain x xs where x: "js_split sep s = x # xs"
      using js_split_nonempty [of sep s] by (cases "js_split sep s") auto
    with Cons False show ?thesis by (simp add: js_join_Cons_Cons)
  qed
qed

lemma js_split_append: "js_split sep (a @ sep # b) = js_split sep a @ js_split sep b"
proof (induction a)
  case Nil
  show ?case by simp
next
  case (Cons c a)
  obtain x xs where x: "js_split sep a = x # xs"
    using js_split_nonempty [of sep a] by (cases "js_split sep a") auto
  with Cons show ?case by simp
qed

lemma js_split_no_sep: "sep \<notin> set s \<Longrightarrow> js_split sep s = [s]"
  by (induction s) auto

lemma js_split_no_sep_in_parts: "x \<in> set (js_split sep s) \<Longrightarrow> sep \<notin> set x"
proof (induction s arbitrary: x)
  case Nil
  then show ?case by simp
next
  case (Cons c s)
  obtain y ys where y: "js_split sep s = y # ys"
    using js_split_nonempty [of sep s] by (cases "js_split sep s") auto
  from Cons y show ?case by (auto split: if_splits)
qed

lemma js_join_snoc: "xs \<noteq> [] \<Longrightarrow> js_join sep (xs @ [y]) = js_join sep xs @ sep @ y"
  by (induction sep xs rule: js_join.induct) auto

lemma split_join:
  "xs \<noteq> [] \<Longrightarrow> \<forall>x \<in> set xs. sep \<notin> set x \<Longrightarrow> js_split sep (js_join [sep] xs) = xs"
proof (induction "[sep]" xs rule: js_join.induct)
  case 1
  then show ?case by simp
next
  case (2 x)
  then show ?case by (simp add: js_split_no_sep)
next
  case (3 x y ys)
  then have "js_split sep (js_join [sep] (y # ys)) = y # ys" by simp
  moreover have "js_split sep x = [x]" using 3 by (simp add: js_split_no_sep)
  ultimately show ?case using js_split_append [of sep x "js_join [sep] (y # ys)"] by simp
qed

lemma toString_digits: "newline \<notin> set (toString n)"
proof (induction n rule: toString.induct)
  case (1 n)
  have d: "newline \<noteq> digit k" if "k < 10" for k
  proof -
    from that have "k \<in> {0,1,2,3,4,5,6,7,8,9}" by auto
    then show ?thesis by (auto simp: digit_def newline_def)
  qed
  show ?case
  proof (cases "n < 10")
    case True
    then show ?thesis by (subst toString.simps) (simp add: d)
  next
    case False
    with 1 show ?thesis by (subst toString.simps) (simp add: d)
  qed
qed

section \<open>The scan of the project files\<close>

lemma scan_filter: "scan ignored files acc = acc @ filter (\<lambda>p. firstPart p \<notin> ignored) files"
  by (induction files arbitrary: acc) auto

lemma scan_subset: "set (scan ignored files []) \<subseteq> set files"
  by (auto simp: scan_filter)

lemma scan_all_ignored:
  "\<forall>p \<in> set files. firstPart p \<in> ignored \<Longrightarrow> scan ignored files [] = []"
  by (simp add: scan_filter)

text \<open>
  C2. The scan keeps a path if and only if its first segment is neither a name supplied
  by the user nor one of node_modules, .git and .DS_Store; the paths kept are in their
  original order.
\<close>

theorem scan_keeps_exactly_unignored:
  "scan (ignoreFolders user) projectFiles [] =
     filter (\<lambda>relPath. hd (js_split slash relPath)
                \<notin> set user \<union> {js ''node_modules'', js ''.git'', js ''.DS_Store''})
       projectFiles
   \<and> (relPath \<in> set (scan (ignoreFolders user) projectFiles []) \<longleftrightarrow>
        relPath \<in> set projectFiles
        \<and> hd (js_split slash relPath)
            \<notin> set user \<union> {js ''node_modules'', js ''.git'', js ''.DS_Store''})"
  by (simp add: scan_filter ignoreFolders_def autoIgnored_def firstPart_def)

theorem scan_keeps_exactly_unignored_witness:
  "scan (ignoreFolders [js ''dist''])
     [js ''proj/a.ts'', js ''dist/b.js'', js ''.git/HEAD'', js ''README.md'', js ''proj/dist/c''] []
   = [js ''proj/a.ts'', js ''README.md'', js ''proj/dist/c'']"
proof -
  have "filter (\<lambda>relPath. hd (js_split slash relPath)
                \<notin> set [js ''dist''] \<union> {js ''node_modules'', js ''.git'', js ''.DS_Store''})
          [js ''proj/a.ts'', js ''dist/b.js'', js ''.git/HEAD'', js ''README.md'', js ''proj/dist/c'']
        = [js ''proj/a.ts'', js ''README.md'', js ''proj/dist/c'']"
    by code_simp
  with scan_keeps_exactly_unignored
         [of "[js ''dist'']"
             "[js ''proj/a.ts'', js ''dist/b.js'', js ''.git/HEAD'', js ''README.md'', js ''proj/dist/c'']"]
  show ?thesis by simp
qed

section \<open>Pruning\<close>

lemma all_keys_remove:
  "set (all_keys (removeKeyRecursively t k)) \<subseteq> set (all_keys t) - {k}"
proof (induction t k rule: removeKeyRecursively.induct)
  case (1 kvs k)
  have "set (all_keys (removeKeyRecursively (snd kv) k)) \<subseteq> set (all_keys (snd kv)) - {k}"
    if "kv \<in> set kvs" "fst kv \<noteq> k" for kv
    using 1 [of kv] that by simp
  then show ?case by (auto simp: image_iff)
qed

lemma all_keys_prune: "set (all_keys (prune t)) \<subseteq> set (all_keys t) - set autoIgnored"
proof -
  let ?a = "removeKeyRecursively t (js ''node_modules'')"
  let ?b = "removeKeyRecursively ?a (js ''.git'')"
  have "set (all_keys (prune t)) \<subseteq> set (all_keys ?b) - {js ''.DS_Store''}"
    unfolding prune_def by (rule all_keys_remove)
  moreover have "set (all_keys ?b) \<subseteq> set (all_keys ?a) - {js ''.git''}"
    by (rule all_keys_remove)
  moreover have "set (all_keys ?a) \<subseteq> set (all_keys t) - {js ''node_modules''}"
    by (rule all_keys_remove)
  ultimately show ?thesis unfolding autoIgnored_def by auto
qed

lemma subtree_empty: "subtree (Node []) (k # ks) = None"
  by (simp add: own_def)

lemma own_remove:
  "q \<noteq> k \<Longrightarrow> own (removeKeyRecursively t k) q = map_option (\<lambda>n. removeKeyRecursively n k) (own t q)"
proof -
  assume q: "q \<noteq> k"
  obtain kvs where t: "t = Node kvs" by (cases t)
  have "map_of (map (\<lambda>kv. (fst kv, f (snd kv))) (filter (\<lambda>kv. fst kv \<noteq> k) kvs)) q
        = map_option f (map_of kvs q)" for f :: "tree \<Rightarrow> tree"
    using q by (induction kvs) auto
  then show ?thesis by (simp add: t own_def)
qed

lemma subtree_remove:
  "k \<notin> set pre \<Longrightarrow>
   subtree (removeKeyRecursively t k) pre = map_option (\<lambda>n. removeKeyRecursively n k) (subtree t pre)"
proof (induction pre arbitrary: t)
  case Nil
  show ?case by simp
next
  case (Cons q qs)
  then have "q \<noteq> k" and "k \<notin> set qs" by auto
  with Cons.IH show ?case by (simp add: own_remove split: option.splits)
qed

lemma subtree_prune:
  "\<forall>part \<in> set pre. part \<notin> set autoIgnored \<Longrightarrow>
   subtree (prune t) pre = map_option prune (subtree t pre)"
proof -
  assume "\<forall>part \<in> set pre. part \<notin> set autoIgnored"
  then have "js ''node_modules'' \<notin> set pre" "js ''.git'' \<notin> set pre" "js ''.DS_Store'' \<notin> set pre"
    by (auto simp: autoIgnored_def)
  then show ?thesis
    by (cases "subtree t pre") (simp_all add: prune_def subtree_remove)
qed

lemma prune_empty: "prune (Node []) = Node []"
  by (simp add: prune_def)

lemma keys_remove:
  "map fst (props (removeKeyRecursively t k)) = filter (\<lambda>key. key \<noteq> k) (map fst (props t))"
proof -
  obtain kvs where t: "t = Node kvs" by (cases t)
  show ?thesis unfolding t by (induction kvs) auto
qed

lemma keys_prune:
  "map fst (props (prune t)) = filter (\<lambda>key. key \<notin> set autoIgnored) (map fst (props t))"
  by (simp add: prune_def keys_remove autoIgnored_def conj_commute conj_left_commute)

lemma own_remove_same: "own (removeKeyRecursively t k) k = None"
proof -
  obtain kvs where t: "t = Node kvs" by (cases t)
  have "map_of (map (\<lambda>kv. (fst kv, f (snd kv))) (filter (\<lambda>kv. fst kv \<noteq> k) kvs)) k = None"
    for f :: "tree \<Rightarrow> tree"
    by (induction kvs) auto
  then show ?thesis by (simp add: t own_def)
qed

lemma own_remove_if:
  "own (removeKeyRecursively t k) key =
     (if key = k then None else map_option (\<lambda>child. removeKeyRecursively child k) (own t key))"
  by (simp add: own_remove own_remove_same)

lemma own_prune:
  "own (prune t) key = (if key \<in> set autoIgnored then None else map_option prune (own t key))"
proof (cases "own t key")
  case None
  then show ?thesis by (simp add: prune_def own_remove_if autoIgnored_def)
next
  case (Some c)
  then show ?thesis by (simp add: prune_def own_remove_if autoIgnored_def)
qed

lemma subtree_prune_below_ignored:
  "\<exists>part \<in> set pre. part \<in> set autoIgnored \<Longrightarrow> subtree (prune t) pre = None"
proof (induction pre arbitrary: t)
  case Nil
  then show ?case by simp
next
  case (Cons q qs)
  show ?case
  proof (cases "q \<in> set autoIgnored")
    case True
    then show ?thesis by (simp add: own_prune)
  next
    case False
    with Cons.prems have "\<exists>part \<in> set qs. part \<in> set autoIgnored" by auto
    from Cons.IH [OF this] False show ?thesis
      by (cases "own t q") (simp_all add: own_prune)
  qed
qed

lemma subtree_prune_if:
  "subtree (prune t) pre =
     (if set pre \<inter> set autoIgnored = {} then map_option prune (subtree t pre) else None)"
proof (cases "set pre \<inter> set autoIgnored = {}")
  case True
  then have "\<forall>part \<in> set pre. part \<notin> set autoIgnored" by auto
  from subtree_prune [OF this] True show ?thesis by simp
next
  case False
  then have "\<exists>part \<in> set pre. part \<in> set autoIgnored" by auto
  from subtree_prune_below_ignored [OF this] False show ?thesis by simp
qed

text \<open>
  C3. A pruning removes the matching key from the node that holds it, with the subtree
  below it, which it does not visit; every other key stays where it was, above its own
  pruned subtree. So after the three prunings the nodes of the tree are the nodes that
  were reached without passing node_modules, .git or .DS_Store, and no key at any depth is
  one of the three. The instance below has a/node_modules/b/c beside paths that stay.
\<close>

theorem pruning_removes_the_auto_ignored_keys_and_nothing_else:
  "(\<forall>name \<in> set autoIgnored. name \<notin> set (all_keys (prune tree)))
   \<and> subtree (prune tree) pre =
       (if set pre \<inter> set autoIgnored = {} then map_option prune (subtree tree pre) else None)
   \<and> map fst (props (prune tree)) =
       filter (\<lambda>key. key \<notin> set autoIgnored) (map fst (props tree))
   \<and> own (prune tree) key =
       (if key \<in> set autoIgnored then None else map_option prune (own tree key))
   \<and> map fst (props (removeKeyRecursively tree k)) =
       filter (\<lambda>key. key \<noteq> k) (map fst (props tree))
   \<and> own (removeKeyRecursively tree k) key =
       (if key = k then None
        else map_option (\<lambda>child. removeKeyRecursively child k) (own tree key))
   \<and> removeKeyRecursively (Node (kvs @ (k, sub) # kvs')) k
       = removeKeyRecursively (Node (kvs @ kvs')) k"
proof -
  have a: "\<forall>name \<in> set autoIgnored. name \<notin> set (all_keys (prune tree))"
    using all_keys_prune [of tree] by auto
  have g: "removeKeyRecursively (Node (kvs @ (k, sub) # kvs')) k
           = removeKeyRecursively (Node (kvs @ kvs')) k"
    by simp
  from a subtree_prune_if [of tree pre] keys_prune [of tree] own_prune [of tree key]
       keys_remove [of tree k] own_remove_if [of tree k key] g
  show ?thesis by (intro conjI)
qed

theorem pruning_removes_the_auto_ignored_keys_and_nothing_else_witness:
  "buildTree unasked
     [js ''a/node_modules/b/c'', js ''a/src/x.ts'', js ''a/src/node_modules/y'',
      js ''a/.git/config'', js ''a/README.md''] Pristine =
     Inr (Node [(js ''a'',
            Node [(js ''node_modules'', Node [(js ''b'', Node [(js ''c'', Node [])])]),
                  (js ''src'', Node [(js ''x.ts'', Node []),
                                     (js ''node_modules'', Node [(js ''y'', Node [])])]),
                  (js ''.git'', Node [(js ''config'', Node [])]),
                  (js ''README.md'', Node [])])], Pristine)
   \<and> prune (Node [(js ''a'',
            Node [(js ''node_modules'', Node [(js ''b'', Node [(js ''c'', Node [])])]),
                  (js ''src'', Node [(js ''x.ts'', Node []),
                                     (js ''node_modules'', Node [(js ''y'', Node [])])]),
                  (js ''.git'', Node [(js ''config'', Node [])]),
                  (js ''README.md'', Node [])])])
       = Node [(js ''a'', Node [(js ''src'', Node [(js ''x.ts'', Node [])]),
                               (js ''README.md'', Node [])])]
   \<and> subtree (prune (Node [(js ''a'',
            Node [(js ''node_modules'', Node [(js ''b'', Node [(js ''c'', Node [])])]),
                  (js ''src'', Node [(js ''x.ts'', Node []),
                                     (js ''node_modules'', Node [(js ''y'', Node [])])]),
                  (js ''.git'', Node [(js ''config'', Node [])]),
                  (js ''README.md'', Node [])])])) [js ''a'', js ''src'']
       = Some (Node [(js ''x.ts'', Node [])])
   \<and> subtree (prune (Node [(js ''a'',
            Node [(js ''node_modules'', Node [(js ''b'', Node [(js ''c'', Node [])])]),
                  (js ''src'', Node [(js ''x.ts'', Node []),
                                     (js ''node_modules'', Node [(js ''y'', Node [])])]),
                  (js ''.git'', Node [(js ''config'', Node [])]),
                  (js ''README.md'', Node [])])])) [js ''a'', js ''node_modules'', js ''b'']
       = None"
proof -
  let ?src = "Node [(js ''x.ts'', Node []), (js ''node_modules'', Node [(js ''y'', Node [])])]"
  let ?tree = "Node [(js ''a'',
            Node [(js ''node_modules'', Node [(js ''b'', Node [(js ''c'', Node [])])]),
                  (js ''src'', ?src),
                  (js ''.git'', Node [(js ''config'', Node [])]),
                  (js ''README.md'', Node [])])]"
  have b: "buildTree unasked
     [js ''a/node_modules/b/c'', js ''a/src/x.ts'', js ''a/src/node_modules/y'',
      js ''a/.git/config'', js ''a/README.md''] Pristine = Inr (?tree, Pristine)"
    by code_simp
  have p: "prune ?tree = Node [(js ''a'', Node [(js ''src'', Node [(js ''x.ts'', Node [])]),
                               (js ''README.md'', Node [])])]"
    by code_simp
  have i1: "(set [js ''a'', js ''src''] \<inter> set autoIgnored = {}) = True" by code_simp
  have i2: "(set [js ''a'', js ''node_modules'', js ''b''] \<inter> set autoIgnored = {}) = False"
    by code_simp
  have s1: "subtree ?tree [js ''a'', js ''src''] = Some ?src" by code_simp
  have p1: "prune ?src = Node [(js ''x.ts'', Node [])]" by code_simp
  note t1 = pruning_removes_the_auto_ignored_keys_and_nothing_else
              [of ?tree "[js ''a'', js ''src'']", THEN conjunct2, THEN conjunct1]
  note t2 = pruning_removes_the_auto_ignored_keys_and_nothing_else
              [of ?tree "[js ''a'', js ''node_modules'', js ''b'']", THEN conjunct2, THEN conjunct1]
  from t1 have r1: "subtree (prune ?tree) [js ''a'', js ''src''] = Some (Node [(js ''x.ts'', Node [])])"
    by (simp only: i1 s1 if_True option.map p1)
  from t2 have r2: "subtree (prune ?tree) [js ''a'', js ''node_modules'', js ''b''] = None"
    by (simp only: i2 if_False)
  from b p r1 r2 show ?thesis by (intro conjI)
qed

section \<open>Rendering\<close>

lemma fold_append_concat: "fold (\<lambda>x acc. acc @ f x) xs a = a @ concat (map f xs)"
  by (induction xs arbitrary: a) auto

lemma set_key_order: "set (key_order ks) = set ks"
  by (auto simp: key_order_def)

lemma length_key_order: "length (key_order ks) = length ks"
proof -
  have "length (filter P ks) + length (filter (\<lambda>k. \<not> P k) ks) = length ks" for P :: "jsstring \<Rightarrow> bool"
    by (induction ks) auto
  then show ?thesis by (simp add: key_order_def)
qed

lemma filter_key_order: "filter P (key_order ks) = key_order (filter P ks)"
proof -
  have "filter P (filter Q ks) = filter Q (filter P ks)" for Q :: "jsstring \<Rightarrow> bool"
    by (auto intro: filter_cong simp: conj_commute)
  then show ?thesis by (simp add: key_order_def filter_sort)
qed

lemma Object_keys_prune:
  "Object_keys (prune t) = filter (\<lambda>key. key \<notin> set autoIgnored) (Object_keys t)"
  by (simp add: Object_keys_def keys_prune filter_key_order)

lemma userIgnoredList_single: "userIgnoredList [ignoreFiles] = userIgnored ignoreFiles"
  by (simp add: userIgnoredList_def)

lemma own_of_key: "key \<in> set (Object_keys tree) \<Longrightarrow> \<exists>children. own tree key = Some children"
proof -
  assume "key \<in> set (Object_keys tree)"
  then have "key \<in> fst ` set (props tree)" by (simp add: Object_keys_def set_key_order)
  then have "map_of (props tree) key \<noteq> None" by (simp add: map_of_eq_None_iff)
  then show ?thesis by (auto simp: own_def)
qed

lemma own_in_keys: "own t k = Some c \<Longrightarrow> k \<in> set (Object_keys t)"
proof -
  assume "own t k = Some c"
  then have "(k, c) \<in> set (props t)" by (auto simp: own_def dest: map_of_SomeD)
  then have "k \<in> fst ` set (props t)" by force
  then show ?thesis by (simp add: Object_keys_def set_key_order)
qed

lemma treeToString_blocks:
  "treeToString tree indent = concat (map (block tree indent) (enumerate 0 (Object_keys tree)))"
proof -
  have "treeToString tree indent =
        fold (\<lambda>ik lines. lines @ block tree indent ik) (enumerate 0 (Object_keys tree)) []"
    by (subst treeToString.simps)
       (auto simp: Let_def block_def fun_eq_iff split: option.splits
             intro!: arg_cong2 [where f = "\<lambda>f xs. fold f xs []"])
  then show ?thesis by (simp add: fold_append_concat)
qed

lemma treeToString_empty: "treeToString (Node []) indent = []"
  by (simp add: treeToString.simps Object_keys_def key_order_def)

lemma block_head: "ind @ (if i = length (Object_keys t) - 1 then elbow else tee) @ k \<in> set (block t ind (i, k))"
  by (simp add: block_def Let_def)

lemma block_children:
  "own t k = Some c \<Longrightarrow> Object_keys c \<noteq> [] \<Longrightarrow>
   set (treeToString c (ind @ (if i = length (Object_keys t) - 1 then blank else bar)))
   \<subseteq> set (block t ind (i, k))"
  by (simp add: block_def Let_def subset_insertI)

lemma block_in_treeToString:
  "k \<in> set (Object_keys t) \<Longrightarrow> \<exists>i. set (block t ind (i, k)) \<subseteq> set (treeToString t ind)"
proof -
  assume "k \<in> set (Object_keys t)"
  then obtain i where "i < length (Object_keys t)" and "Object_keys t ! i = k"
    by (auto simp: in_set_conv_nth)
  then have "(i, k) \<in> set (enumerate 0 (Object_keys t))"
    by (simp add: in_set_enumerate_eq)
  then have "set (block t ind (i, k)) \<subseteq> set (treeToString t ind)"
    unfolding treeToString_blocks [of t ind] by auto
  then show ?thesis ..
qed

lemma subseq_heads: "\<forall>b \<in> set bs. b \<noteq> [] \<Longrightarrow> subseq (map hd bs) (concat bs)"
proof (induction bs)
  case Nil
  show ?case by simp
next
  case (Cons b bs)
  then obtain x xs where b: "b = x # xs" by (cases b) auto
  from Cons have "subseq (map hd bs) (concat bs)" by simp
  then have "subseq (map hd bs) (xs @ concat bs)" by (rule list_emb_append2)
  then show ?case by (simp add: b)
qed

lemma key_lines_in_order:
  "subseq (map (\<lambda>ik. indent @ (if fst ik = length (Object_keys node) - 1 then elbow else tee) @ snd ik)
             (enumerate 0 (Object_keys node)))
          (treeToString node indent)"
proof -
  let ?bs = "map (block node indent) (enumerate 0 (Object_keys node))"
  have "\<forall>b \<in> set ?bs. b \<noteq> []" by (auto simp: block_def Let_def)
  then have h: "subseq (map hd ?bs) (concat ?bs)" by (rule subseq_heads)
  have eq: "map hd ?bs =
     map (\<lambda>ik. indent @ (if fst ik = length (Object_keys node) - 1 then elbow else tee) @ snd ik)
         (enumerate 0 (Object_keys node))"
    by (simp add: comp_def block_def Let_def)
  from h show ?thesis unfolding treeToString_blocks [of node indent] eq .
qed

lemma key_line_rendered:
  "subtree t (pre @ [k]) = Some c \<Longrightarrow>
   \<exists>indent connector. connector \<in> {tee, elbow} \<and> indent @ connector @ k \<in> set (treeToString t ind)"
proof (induction pre arbitrary: t ind)
  case Nil
  then have "own t k = Some c" by (simp split: option.splits)
  then have "k \<in> set (Object_keys t)" by (rule own_in_keys)
  from block_in_treeToString [OF this, of ind] obtain i
    where "set (block t ind (i, k)) \<subseteq> set (treeToString t ind)" ..
  with block_head [of ind i t k]
  have "ind @ (if i = length (Object_keys t) - 1 then elbow else tee) @ k
             \<in> set (treeToString t ind)"
    by (rule subsetD [rotated])
  moreover have "(if i = length (Object_keys t) - 1 then elbow else tee) \<in> {tee, elbow}"
    by simp
  ultimately show ?case by (intro exI conjI)
next
  case (Cons q qs)
  from Cons.prems obtain c1 where o: "own t q = Some c1" and s: "subtree c1 (qs @ [k]) = Some c"
    by (cases "own t q") simp_all
  obtain k1 ks where ks: "qs @ [k] = k1 # ks" by (cases "qs @ [k]") simp_all
  with s obtain c2 where "own c1 k1 = Some c2" by (cases "own c1 k1") simp_all
  then have "k1 \<in> set (Object_keys c1)" by (rule own_in_keys)
  then have ne: "Object_keys c1 \<noteq> []" by (cases "Object_keys c1") simp_all
  from o have "q \<in> set (Object_keys t)" by (rule own_in_keys)
  from block_in_treeToString [OF this, of ind] obtain i
    where b: "set (block t ind (i, q)) \<subseteq> set (treeToString t ind)" ..
  let ?ind = "ind @ (if i = length (Object_keys t) - 1 then blank else bar)"
  from block_children [OF o ne, of ind i] b
  have sub: "set (treeToString c1 ?ind) \<subseteq> set (treeToString t ind)"
    by (rule subset_trans)
  from Cons.IH [OF s, of ?ind] obtain indent connector
    where "connector \<in> {tee, elbow}" and "indent @ connector @ k \<in> set (treeToString c1 ?ind)"
    by blast
  with sub have "connector \<in> {tee, elbow} \<and> indent @ connector @ k \<in> set (treeToString t ind)"
    by blast
  then show ?case by (intro exI)
qed

text \<open>
  C4. The lines of a node are the concatenation of one block per key, in the order of
  \<open>Object.keys\<close>. The block of the key at position \<open>i\<close> of \<open>n\<close> starts with the line
  indent + connector + key, the connector being the elbow when \<open>i = n - 1\<close> and the tee
  otherwise; the lines of the children follow in the same block, indented by four more
  columns (blank after the last key, with a bar otherwise), when the child has keys, and
  nothing follows when it has none.
\<close>

theorem treeToString_renders_each_key:
  "\<exists>blocks. treeToString tree indent = concat blocks
     \<and> length blocks = length (Object_keys tree)
     \<and> (\<forall>i < length (Object_keys tree).
          \<exists>children. own tree (Object_keys tree ! i) = Some children
            \<and> blocks ! i =
                (indent @ (if i = length (Object_keys tree) - 1 then elbow else tee)
                   @ Object_keys tree ! i)
                # (if Object_keys children = [] then []
                   else treeToString children
                          (indent @ (if i = length (Object_keys tree) - 1 then blank else bar))))"
proof -
  let ?keys = "Object_keys tree"
  let ?blocks = "map (block tree indent) (enumerate 0 ?keys)"
  have a: "treeToString tree indent = concat ?blocks"
    by (rule treeToString_blocks)
  have b: "length ?blocks = length ?keys"
    by simp
  have c: "\<exists>children. own tree (?keys ! i) = Some children
            \<and> ?blocks ! i =
                (indent @ (if i = length ?keys - 1 then elbow else tee) @ ?keys ! i)
                # (if Object_keys children = [] then []
                   else treeToString children
                          (indent @ (if i = length ?keys - 1 then blank else bar)))"
    if i: "i < length ?keys" for i
  proof -
    from i have "?keys ! i \<in> set ?keys" by simp
    then obtain children where c: "own tree (?keys ! i) = Some children"
      using own_of_key by blast
    have "?blocks ! i = block tree indent (i, ?keys ! i)"
      using i by (simp add: nth_enumerate_eq)
    with c show ?thesis by (simp add: block_def)
  qed
  from a b c show ?thesis by blast
qed

theorem treeToString_renders_each_key_witness:
  "treeToString (Node [(js ''src'', Node [(js ''a.ts'', Node [])]), (js ''README.md'', Node [])]) []
   = [tee @ js ''src'', bar @ elbow @ js ''a.ts'', elbow @ js ''README.md'']"
proof -
  let ?src = "Node [(js ''a.ts'', Node [])]"
  let ?tree = "Node [(js ''src'', ?src), (js ''README.md'', Node [])]"
  have k: "Object_keys ?tree = [js ''src'', js ''README.md'']" by code_simp
  have o0: "own ?tree (js ''src'') = Some ?src" by code_simp
  have o1: "own ?tree (js ''README.md'') = Some (Node [])" by code_simp
  have k0: "Object_keys ?src = [js ''a.ts'']" by code_simp
  have k1: "Object_keys (Node []) = []" by code_simp
  have oa: "own ?src (js ''a.ts'') = Some (Node [])" by code_simp
  from treeToString_renders_each_key [of ?tree "[]"] obtain blocks
    where c: "treeToString ?tree [] = concat blocks"
      and l: "length blocks = length (Object_keys ?tree)"
      and b: "\<forall>i < length (Object_keys ?tree).
          \<exists>children. own ?tree (Object_keys ?tree ! i) = Some children
            \<and> blocks ! i =
                ([] @ (if i = length (Object_keys ?tree) - 1 then elbow else tee)
                   @ Object_keys ?tree ! i)
                # (if Object_keys children = [] then []
                   else treeToString children
                          ([] @ (if i = length (Object_keys ?tree) - 1 then blank else bar)))"
    by blast
  from treeToString_renders_each_key [of ?src bar] obtain blocks'
    where c': "treeToString ?src bar = concat blocks'"
      and l': "length blocks' = length (Object_keys ?src)"
      and b': "\<forall>i < length (Object_keys ?src).
          \<exists>children. own ?src (Object_keys ?src ! i) = Some children
            \<and> blocks' ! i =
                (bar @ (if i = length (Object_keys ?src) - 1 then elbow else tee)
                   @ Object_keys ?src ! i)
                # (if Object_keys children = [] then []
                   else treeToString children
                          (bar @ (if i = length (Object_keys ?src) - 1 then blank else bar)))"
    by blast
  from b' [rule_format, of 0] have "blocks' ! 0 = [bar @ elbow @ js ''a.ts'']"
    unfolding k0 by (simp add: oa k1)
  moreover from l' have "length blocks' = 1" unfolding k0 by simp
  ultimately have "blocks' = [[bar @ elbow @ js ''a.ts'']]"
    by (cases blocks') simp_all
  with c' have sub: "treeToString ?src bar = [bar @ elbow @ js ''a.ts'']" by simp
  from b [rule_format, of 0] have b0: "blocks ! 0 = [tee @ js ''src'', bar @ elbow @ js ''a.ts'']"
    unfolding k by (simp add: o0 k0 sub)
  from b [rule_format, of 1] have b1: "blocks ! 1 = [elbow @ js ''README.md'']"
    unfolding k by (simp add: o1 k1)
  from l have "length blocks = 2" unfolding k by simp
  then obtain x y where "blocks = [x, y]"
    by (cases blocks; cases "tl blocks") auto
  with b0 b1 have "blocks = [[tee @ js ''src'', bar @ elbow @ js ''a.ts''], [elbow @ js ''README.md'']]"
    by simp
  with c show ?thesis by simp
qed

section \<open>The order of the keys of a built tree\<close>

lemma fold_add_key: "fold add_key xs ks = ks @ filter (\<lambda>x. x \<notin> set ks) (firsts xs)"
proof (induction xs arbitrary: ks)
  case Nil
  show ?case by simp
next
  case (Cons x xs)
  show ?case
  proof (cases "x \<in> set ks")
    case True
    then have "filter (\<lambda>y. y \<notin> set ks) (filter (\<lambda>y. y \<noteq> x) (firsts xs))
             = filter (\<lambda>y. y \<notin> set ks) (firsts xs)"
      by (auto intro: filter_cong)
    with True Cons show ?thesis by (simp add: add_key_def)
  next
    case False
    have "filter (\<lambda>y. y \<notin> set (ks @ [x])) (firsts xs)
          = filter (\<lambda>y. y \<notin> set ks) (filter (\<lambda>y. y \<noteq> x) (firsts xs))"
      by (auto intro: filter_cong)
    with False Cons [of "ks @ [x]"] show ?thesis by (simp add: add_key_def)
  qed
qed

lemma keys_at_empty: "keys_at (Node []) pre = []"
  by (cases pre) (simp_all add: keys_at_def own_def)

lemma keys_at_Nil: "keys_at t [] = map fst (props t)"
  by (simp add: keys_at_def)

lemma keys_at_Cons:
  "keys_at t (q # qs) = (case own t q of None \<Rightarrow> [] | Some c \<Rightarrow> keys_at c qs)"
  by (simp add: keys_at_def split: option.splits)

lemma next_segment_simps:
  "next_segment pre [] = []"
  "next_segment [] (p # ps) = [p]"
  "next_segment (q # qs) (p # ps) = (if q = p then next_segment qs ps else [])"
  by (auto simp: next_segment_def)

lemma update_keys_present:
  "map_of kvs p = Some c \<Longrightarrow> map fst (AList.update p c' kvs) = map fst kvs"
  by (induction kvs) (auto split: if_splits)

lemma walk_inherited_last:
  "map_of kvs part = None \<Longrightarrow> part \<in> set (inherited H page) \<Longrightarrow>
   walk H [part] (Node kvs) page = Inr (Node kvs, page)"
  by simp

lemma walk_inherited_more:
  "map_of kvs part = None \<Longrightarrow> part \<in> set (inherited H page) \<Longrightarrow> parts \<noteq> [] \<Longrightarrow>
   walk H (part # parts) (Node kvs) page =
     (case leave H page part parts of
        Inl e \<Rightarrow> Inl (Uncaught e)
      | Inr h \<Rightarrow> Inr (Node kvs, Touched h))"
  by simp

lemma walk_total:
  "\<forall>s \<in> set parts. s \<notin> set Object_prototype_names \<Longrightarrow>
   \<exists>t'. walk H parts t Pristine = Inr (t', Pristine)"
proof (induction parts arbitrary: t)
  case Nil
  show ?case by simp
next
  case (Cons p ps)
  obtain kvs where t: "t = Node kvs" by (cases t)
  from Cons.prems have clean: "\<forall>s \<in> set ps. s \<notin> set Object_prototype_names"
    and p: "p \<notin> set Object_prototype_names" by auto
  show ?case
  proof (cases "map_of kvs p")
    case None
    from Cons.IH [OF clean, of "Node []"] obtain c'
      where "walk H ps (Node []) Pristine = Inr (c', Pristine)" by blast
    with None p show ?thesis by (simp add: t)
  next
    case (Some c)
    from Cons.IH [OF clean, of c] obtain c'
      where "walk H ps c Pristine = Inr (c', Pristine)" by blast
    with Some show ?thesis by (simp add: t)
  qed
qed

lemma walk_step:
  assumes "\<forall>s \<in> set (p # ps). s \<notin> set Object_prototype_names"
    and "walk H (p # ps) (Node kvs) Pristine = Inr (t', page)"
  obtains c' where
    "walk H ps (case map_of kvs p of Some c \<Rightarrow> c | None \<Rightarrow> Node []) Pristine = Inr (c', Pristine)"
    and "t' = (case map_of kvs p of Some _ \<Rightarrow> Node (AList.update p c' kvs)
                | None \<Rightarrow> Node (kvs @ [(p, c')]))"
    and "page = Pristine"
proof -
  let ?c = "case map_of kvs p of Some c \<Rightarrow> c | None \<Rightarrow> Node []"
  from assms(1) have clean: "\<forall>s \<in> set ps. s \<notin> set Object_prototype_names"
    and p: "p \<notin> set Object_prototype_names" by auto
  from walk_total [OF clean, of H ?c] obtain c'
    where c': "walk H ps ?c Pristine = Inr (c', Pristine)" by blast
  with assms(2) p
  have "t' = (case map_of kvs p of Some _ \<Rightarrow> Node (AList.update p c' kvs)
                | None \<Rightarrow> Node (kvs @ [(p, c')]))"
    and "page = Pristine"
    by (auto split: option.splits)
  with c' that show thesis by blast
qed

lemma walk_page:
  assumes "\<forall>s \<in> set parts. s \<notin> set Object_prototype_names"
    and "walk H parts t Pristine = Inr (t', page)"
  shows "page = Pristine"
  using walk_total [OF assms(1), of H t] assms(2) by auto

lemma walk_host_free:
  assumes "\<forall>s \<in> set parts. s \<notin> set Object_prototype_names"
    and "walk H parts t Pristine = Inr (t', Pristine)"
  shows "walk H' parts t Pristine = Inr (t', Pristine)"
  using assms
proof (induction parts arbitrary: t t')
  case Nil
  then show ?case by simp
next
  case (Cons p ps)
  obtain kvs where t: "t = Node kvs" by (cases t)
  from Cons.prems(1) have clean: "\<forall>s \<in> set ps. s \<notin> set Object_prototype_names"
    and p: "p \<notin> set Object_prototype_names" by auto
  from Cons.prems(2) obtain c'
    where c': "walk H ps (case map_of kvs p of Some c \<Rightarrow> c | None \<Rightarrow> Node []) Pristine
                 = Inr (c', Pristine)"
      and t': "t' = (case map_of kvs p of Some _ \<Rightarrow> Node (AList.update p c' kvs)
                      | None \<Rightarrow> Node (kvs @ [(p, c')]))"
    unfolding t by (rule walk_step [OF Cons.prems(1)])
  from Cons.IH [OF clean c'] p t' show ?case
    by (auto simp: t split: option.splits)
qed

lemma walk_keys_at:
  assumes "\<forall>s \<in> set parts. s \<notin> set Object_prototype_names"
    and "walk H parts t Pristine = Inr (t', Pristine)"
  shows "keys_at t' pre = fold add_key (next_segment pre parts) (keys_at t pre)"
  using assms
proof (induction parts arbitrary: t t' pre)
  case Nil
  then show ?case by (simp add: next_segment_simps)
next
  case (Cons p ps)
  obtain kvs where t: "t = Node kvs" by (cases t)
  from Cons.prems(1) have clean: "\<forall>s \<in> set ps. s \<notin> set Object_prototype_names"
    and p: "p \<notin> set Object_prototype_names" by auto
  define c where "c = (case map_of kvs p of Some c \<Rightarrow> c | None \<Rightarrow> Node [])"
  from Cons.prems(2) obtain c' where c': "walk H ps c Pristine = Inr (c', Pristine)"
    and t': "t' = (case map_of kvs p of Some _ \<Rightarrow> Node (AList.update p c' kvs)
                    | None \<Rightarrow> Node (kvs @ [(p, c')]))"
    unfolding t c_def by (rule walk_step [OF Cons.prems(1)])
  have own_p: "own t' p = Some c'"
    by (auto simp: t' own_def update_conv' map_add_def split: option.splits)
  have own_q: "own t' q = own t q" if "q \<noteq> p" for q
    using that by (auto simp: t t' own_def update_conv' map_add_def split: option.splits)
  have keys: "map fst (props t') = add_key p (map fst kvs)"
  proof (cases "map_of kvs p")
    case None
    then have "p \<notin> fst ` set kvs" by (simp add: map_of_eq_None_iff)
    with None show ?thesis by (simp add: t' add_key_def)
  next
    case (Some d)
    then have "(p, d) \<in> set kvs" by (rule map_of_SomeD)
    then have "p \<in> fst ` set kvs" by force
    with Some show ?thesis by (simp add: t' add_key_def update_keys_present)
  qed
  show ?case
  proof (cases pre)
    case Nil
    with keys show ?thesis by (simp add: keys_at_Nil next_segment_simps t)
  next
    case (Cons q qs)
    show ?thesis
    proof (cases "q = p")
      case True
      have "keys_at c' qs = fold add_key (next_segment qs ps) (keys_at c qs)"
        using Cons.IH [OF clean c'] .
      moreover have "keys_at t (p # qs) = keys_at c qs"
        by (auto simp: keys_at_Cons t own_def c_def keys_at_empty split: option.splits)
      ultimately show ?thesis
        using True Cons own_p by (simp add: keys_at_Cons next_segment_simps)
    next
      case False
      with Cons own_q [of q] show ?thesis
        by (simp add: keys_at_Cons next_segment_simps)
    qed
  qed
qed

lemma buildFrom_total:
  "clean_paths filePaths \<Longrightarrow> \<exists>t'. buildFrom H filePaths t Pristine = Inr (t', Pristine)"
proof (induction filePaths arbitrary: t)
  case Nil
  show ?case by simp
next
  case (Cons path filePaths)
  then have "\<forall>s \<in> set (js_split slash path). s \<notin> set Object_prototype_names"
    and rest: "clean_paths filePaths"
    by (auto simp: clean_paths_def)
  from walk_total [OF this(1), of H t] obtain t1
    where "walk H (js_split slash path) t Pristine = Inr (t1, Pristine)" by blast
  with Cons.IH [OF rest, of t1] show ?case by simp
qed

lemma buildFrom_step:
  assumes "clean_paths (path # filePaths)"
    and "buildFrom H (path # filePaths) t Pristine = Inr (t', page)"
  obtains t1 where "walk H (js_split slash path) t Pristine = Inr (t1, Pristine)"
    and "buildFrom H filePaths t1 Pristine = Inr (t', page)"
proof -
  from assms(1) have c1: "\<forall>s \<in> set (js_split slash path). s \<notin> set Object_prototype_names"
    by (simp add: clean_paths_def)
  from walk_total [OF c1, of H t] obtain t1
    where w: "walk H (js_split slash path) t Pristine = Inr (t1, Pristine)" by blast
  with assms(2) have "buildFrom H filePaths t1 Pristine = Inr (t', page)" by simp
  with w that show thesis by blast
qed

lemma buildFrom_page:
  assumes "clean_paths filePaths" and "buildFrom H filePaths t Pristine = Inr (t', page)"
  shows "page = Pristine"
  using buildFrom_total [OF assms(1), of H t] assms(2) by auto

lemma buildFrom_host_free:
  assumes "clean_paths filePaths" and "buildFrom H filePaths t Pristine = Inr (t', Pristine)"
  shows "buildFrom H' filePaths t Pristine = Inr (t', Pristine)"
  using assms
proof (induction filePaths arbitrary: t)
  case Nil
  then show ?case by simp
next
  case (Cons path filePaths)
  then have c1: "\<forall>s \<in> set (js_split slash path). s \<notin> set Object_prototype_names"
    and rest: "clean_paths filePaths"
    by (auto simp: clean_paths_def)
  from Cons.prems(2) obtain t1 where w: "walk H (js_split slash path) t Pristine = Inr (t1, Pristine)"
    and b: "buildFrom H filePaths t1 Pristine = Inr (t', Pristine)"
    by (rule buildFrom_step [OF Cons.prems(1)])
  from walk_host_free [OF c1 w, of H'] Cons.IH [OF rest b] show ?case by simp
qed

lemma buildTree_host_free:
  assumes "clean_paths filePaths"
  shows "\<exists>tree. buildTree H filePaths Pristine = Inr (tree, Pristine)
               \<and> buildTree H' filePaths Pristine = Inr (tree, Pristine)"
proof -
  from buildFrom_total [OF assms, of H "Node []"] obtain tree
    where b: "buildFrom H filePaths (Node []) Pristine = Inr (tree, Pristine)" by blast
  from buildFrom_host_free [OF assms b, of H'] b show ?thesis
    by (auto simp: buildTree_def)
qed

lemma buildFrom_keys_at:
  assumes "clean_paths filePaths" and "buildFrom H filePaths t Pristine = Inr (t', Pristine)"
  shows "keys_at t' pre =
           fold add_key (concat (map (\<lambda>path. next_segment pre (js_split slash path)) filePaths))
             (keys_at t pre)"
  using assms
proof (induction filePaths arbitrary: t)
  case Nil
  then show ?case by simp
next
  case (Cons path filePaths)
  then have c1: "\<forall>s \<in> set (js_split slash path). s \<notin> set Object_prototype_names"
    and rest: "clean_paths filePaths"
    by (auto simp: clean_paths_def)
  from Cons.prems(2) obtain t1 where w: "walk H (js_split slash path) t Pristine = Inr (t1, Pristine)"
    and b: "buildFrom H filePaths t1 Pristine = Inr (t', Pristine)"
    by (rule buildFrom_step [OF Cons.prems(1)])
  from Cons.IH [OF rest b] walk_keys_at [OF c1 w, of pre] show ?case by simp
qed

lemma buildTree_keys_at:
  assumes "clean_paths filePaths" and "buildTree H filePaths Pristine = Inr (tree, Pristine)"
  shows "keys_at tree pre = first_seen pre filePaths"
  using buildFrom_keys_at [OF assms(1), of H "Node []" tree pre] assms(2)
  by (simp add: buildTree_def keys_at_empty fold_add_key first_seen_def)

lemma walk_subtree:
  assumes "\<forall>s \<in> set parts. s \<notin> set Object_prototype_names"
    and "walk H parts t Pristine = Inr (t', Pristine)"
    and "subtree t pre \<noteq> None \<or> prefix pre parts"
  shows "subtree t' pre \<noteq> None"
  using assms
proof (induction parts arbitrary: t t' pre)
  case Nil
  then show ?case by auto
next
  case (Cons p ps)
  obtain kvs where t: "t = Node kvs" by (cases t)
  from Cons.prems(1) have clean: "\<forall>s \<in> set ps. s \<notin> set Object_prototype_names"
    and p: "p \<notin> set Object_prototype_names" by auto
  define c where "c = (case map_of kvs p of Some c \<Rightarrow> c | None \<Rightarrow> Node [])"
  from Cons.prems(2) obtain c' where c': "walk H ps c Pristine = Inr (c', Pristine)"
    and t': "t' = (case map_of kvs p of Some _ \<Rightarrow> Node (AList.update p c' kvs)
                    | None \<Rightarrow> Node (kvs @ [(p, c')]))"
    unfolding t c_def by (rule walk_step [OF Cons.prems(1)])
  have own_p: "own t' p = Some c'"
    by (auto simp: t' own_def update_conv' map_add_def split: option.splits)
  have own_q: "own t' q = own t q" if "q \<noteq> p" for q
    using that by (auto simp: t t' own_def update_conv' map_add_def split: option.splits)
  show ?case
  proof (cases pre)
    case Nil
    then show ?thesis by simp
  next
    case (Cons q qs)
    show ?thesis
    proof (cases "q = p")
      case True
      have "subtree c qs \<noteq> None \<or> prefix qs ps"
        using Cons.prems(3) Cons True
        by (auto simp: t own_def c_def split: option.splits)
      from Cons.IH [OF clean c' this] show ?thesis
        using Cons True own_p by simp
    next
      case False
      with Cons.prems(3) Cons own_q [of q] show ?thesis by simp
    qed
  qed
qed

lemma buildFrom_subtree:
  assumes "clean_paths filePaths" and "buildFrom H filePaths t Pristine = Inr (t', Pristine)"
    and "subtree t pre \<noteq> None \<or> (\<exists>path \<in> set filePaths. prefix pre (js_split slash path))"
  shows "subtree t' pre \<noteq> None"
  using assms
proof (induction filePaths arbitrary: t)
  case Nil
  then show ?case by simp
next
  case (Cons path filePaths)
  then have c1: "\<forall>s \<in> set (js_split slash path). s \<notin> set Object_prototype_names"
    and rest: "clean_paths filePaths"
    by (auto simp: clean_paths_def)
  from Cons.prems(2) obtain t1 where w: "walk H (js_split slash path) t Pristine = Inr (t1, Pristine)"
    and b: "buildFrom H filePaths t1 Pristine = Inr (t', Pristine)"
    by (rule buildFrom_step [OF Cons.prems(1)])
  have "subtree t1 pre \<noteq> None \<or> (\<exists>path \<in> set filePaths. prefix pre (js_split slash path))"
    using Cons.prems(3) walk_subtree [OF c1 w, of pre] by auto
  from Cons.IH [OF rest b this] show ?case .
qed

text \<open>
  C5, as amended. Where no segment of a path names an inherited property, the tree is
  built without leaving it, whatever the host, and at every node \<open>Object.keys\<close> lists first the keys that are array indices,
  in ascending numeric order, then the other keys in the order in which their segment was
  first seen among the paths; the lines of the keys appear in the rendered lines in that
  order, and pruning takes the three built-in names out of that order and leaves the rest
  of it as it is. So src/x.ts is rendered before src/y.ts when it is supplied first, and
  the order is not alphabetical, but a name such as 2 or 10 is rendered before every name
  that is not an array index, whatever the order of the paths.
\<close>

theorem keys_enumerate_indices_then_first_seen:
  assumes "\<forall>path \<in> set filePaths. \<forall>part \<in> set (js_split slash path).
             part \<notin> set Object_prototype_names"
  shows "\<exists>tree. buildTree H filePaths Pristine = Inr (tree, Pristine)
           \<and> (\<forall>pre node indent. subtree tree pre = Some node \<longrightarrow>
                Object_keys node =
                  sort_key numeric_value (filter is_array_index (first_seen pre filePaths))
                  @ filter (\<lambda>k. \<not> is_array_index k) (first_seen pre filePaths)
                \<and> subseq
                    (map (\<lambda>ik. indent
                               @ (if fst ik = length (Object_keys node) - 1 then elbow else tee)
                               @ snd ik)
                       (enumerate 0 (Object_keys node)))
                    (treeToString node indent)
                \<and> Object_keys (prune node) =
                    filter (\<lambda>key. key \<notin> set autoIgnored) (Object_keys node))"
proof -
  from assms have clean: "clean_paths filePaths" by (simp add: clean_paths_def)
  from buildFrom_total [OF clean, of H "Node []"] obtain tree
    where tree: "buildTree H filePaths Pristine = Inr (tree, Pristine)"
    by (auto simp: buildTree_def)
  have "Object_keys node =
          sort_key numeric_value (filter is_array_index (first_seen pre filePaths))
          @ filter (\<lambda>k. \<not> is_array_index k) (first_seen pre filePaths)"
    if "subtree tree pre = Some node" for pre node
  proof -
    from that have "keys_at tree pre = map fst (props node)" by (simp add: keys_at_def)
    with buildTree_keys_at [OF clean tree, of pre] show ?thesis
      by (simp add: Object_keys_def key_order_def)
  qed
  with tree key_lines_in_order Object_keys_prune show ?thesis by blast
qed

theorem keys_enumerate_indices_then_first_seen_witness:
  "buildTree unasked [js ''src/x.ts'', js ''src/y.ts'', js ''src/2''] Pristine =
     Inr (Node [(js ''src'', Node [(js ''x.ts'', Node []), (js ''y.ts'', Node []),
                                  (js ''2'', Node [])])], Pristine)
   \<and> Object_keys (Node [(js ''x.ts'', Node []), (js ''y.ts'', Node []), (js ''2'', Node [])])
       = [js ''2'', js ''x.ts'', js ''y.ts'']
   \<and> subseq [bar @ tee @ js ''2'', bar @ tee @ js ''x.ts'', bar @ elbow @ js ''y.ts'']
        (treeToString (Node [(js ''x.ts'', Node []), (js ''y.ts'', Node []), (js ''2'', Node [])]) bar)"
proof -
  let ?paths = "[js ''src/x.ts'', js ''src/y.ts'', js ''src/2'']"
  let ?node = "Node [(js ''x.ts'', Node []), (js ''y.ts'', Node []), (js ''2'', Node [])]"
  let ?tree = "Node [(js ''src'', ?node)]"
  have clean: "\<forall>path \<in> set ?paths. \<forall>part \<in> set (js_split slash path).
                 part \<notin> set Object_prototype_names"
    by code_simp
  have b: "buildTree unasked ?paths Pristine = Inr (?tree, Pristine)" by code_simp
  have s: "subtree ?tree [js ''src''] = Some ?node" by code_simp
  have f: "first_seen [js ''src''] ?paths = [js ''x.ts'', js ''y.ts'', js ''2'']" by code_simp
  have k: "sort_key numeric_value (filter is_array_index [js ''x.ts'', js ''y.ts'', js ''2''])
           @ filter (\<lambda>k. \<not> is_array_index k) [js ''x.ts'', js ''y.ts'', js ''2'']
           = [js ''2'', js ''x.ts'', js ''y.ts'']"
    by code_simp
  from keys_enumerate_indices_then_first_seen [where H = unasked, OF clean]
  obtain tree where t1: "buildTree unasked ?paths Pristine = Inr (tree, Pristine)"
    and t2: "\<forall>pre node indent. subtree tree pre = Some node \<longrightarrow>
                Object_keys node =
                  sort_key numeric_value (filter is_array_index (first_seen pre ?paths))
                  @ filter (\<lambda>k. \<not> is_array_index k) (first_seen pre ?paths)
                \<and> subseq
                    (map (\<lambda>ik. indent
                               @ (if fst ik = length (Object_keys node) - 1 then elbow else tee)
                               @ snd ik)
                       (enumerate 0 (Object_keys node)))
                    (treeToString node indent)
                \<and> Object_keys (prune node) =
                    filter (\<lambda>key. key \<notin> set autoIgnored) (Object_keys node)"
    by blast
  from t1 b have "tree = ?tree" by simp
  with s have s': "subtree tree [js ''src''] = Some ?node" by simp
  from t2 [rule_format, OF s', of bar]
  have 1: "Object_keys ?node =
             sort_key numeric_value (filter is_array_index (first_seen [js ''src''] ?paths))
             @ filter (\<lambda>k. \<not> is_array_index k) (first_seen [js ''src''] ?paths)"
    and 2: "subseq
              (map (\<lambda>ik. bar @ (if fst ik = length (Object_keys ?node) - 1 then elbow else tee) @ snd ik)
                 (enumerate 0 (Object_keys ?node)))
              (treeToString ?node bar)"
    by blast+
  from 1 have keys: "Object_keys ?node = [js ''2'', js ''x.ts'', js ''y.ts'']"
    unfolding f k .
  from 2 have "subseq [bar @ tee @ js ''2'', bar @ tee @ js ''x.ts'', bar @ elbow @ js ''y.ts'']
        (treeToString ?node bar)"
    unfolding keys by (simp add: enumerate_simps)
  with b keys show ?thesis by simp
qed

theorem numeric_key_counterexample:
  "buildTree unasked [js ''src/b.ts'', js ''src/1''] Pristine =
     Inr (Node [(js ''src'', Node [(js ''b.ts'', Node []), (js ''1'', Node [])])], Pristine)
   \<and> first_seen [js ''src''] [js ''src/b.ts'', js ''src/1''] = [js ''b.ts'', js ''1'']
   \<and> treeToString (Node [(js ''src'', Node [(js ''b.ts'', Node []), (js ''1'', Node [])])]) []
       = [elbow @ js ''src'', blank @ tee @ js ''1'', blank @ elbow @ js ''b.ts'']"
  by code_simp

section \<open>Names ignored by the user below the root\<close>

text \<open>
  C9, as amended. A name supplied by the user that is not one of the three built-in names
  only excludes the paths that start with it. In a path that is kept, where the name is
  a later segment and no segment before it is one of the three built-in names, the node
  of that segment is in the tree after pruning, with the pruned subtree that was built
  below it, and a line for it is among the rendered lines. (A node below node_modules,
  .git or .DS_Store is removed with its parent, whatever its name.)
\<close>

theorem user_ignored_name_is_kept_below_the_root:
  assumes "\<forall>path \<in> set projectFiles. \<forall>part \<in> set (js_split slash path).
             part \<notin> set Object_prototype_names"
    and "relPath \<in> set (scan (ignoreFolders user) projectFiles [])"
    and "js_split slash relPath = pre @ name # rest"
    and "pre \<noteq> []"
    and "name \<in> set user"
    and "name \<notin> set autoIgnored"
    and "\<forall>part \<in> set pre. part \<notin> set autoIgnored"
  shows "\<exists>tree node.
           buildTree H (scan (ignoreFolders user) projectFiles []) Pristine = Inr (tree, Pristine)
           \<and> subtree tree (pre @ [name]) = Some node
           \<and> subtree (prune tree) (pre @ [name]) = Some (prune node)
           \<and> (\<exists>indent connector. connector \<in> {tee, elbow}
                 \<and> indent @ connector @ name \<in> set (treeToString (prune tree) []))"
proof -
  let ?kept = "scan (ignoreFolders user) projectFiles []"
  from assms(1) scan_subset [of "ignoreFolders user" projectFiles]
  have clean: "clean_paths ?kept" by (auto simp: clean_paths_def)
  from buildFrom_total [OF clean, of H "Node []"] obtain tree
    where tree: "buildTree H ?kept Pristine = Inr (tree, Pristine)"
    by (auto simp: buildTree_def)
  have "prefix (pre @ [name]) (js_split slash relPath)"
    by (simp add: assms(3))
  with assms(2) have "\<exists>path \<in> set ?kept. prefix (pre @ [name]) (js_split slash path)" by blast
  with buildFrom_subtree [OF clean, of H "Node []" tree "pre @ [name]"] tree
  obtain node where node: "subtree tree (pre @ [name]) = Some node"
    by (auto simp: buildTree_def)
  from assms(6,7) have "\<forall>part \<in> set (pre @ [name]). part \<notin> set autoIgnored" by simp
  from subtree_prune [OF this, of tree] node
  have pr: "subtree (prune tree) (pre @ [name]) = Some (prune node)" by simp
  from key_line_rendered [OF pr, of "[]"] obtain indent connector
    where "connector \<in> {tee, elbow}"
      and "indent @ connector @ name \<in> set (treeToString (prune tree) [])"
    by blast
  then have r: "\<exists>indent connector. connector \<in> {tee, elbow}
                 \<and> indent @ connector @ name \<in> set (treeToString (prune tree) [])"
    by blast
  have "buildTree H ?kept Pristine = Inr (tree, Pristine)
           \<and> subtree tree (pre @ [name]) = Some node
           \<and> subtree (prune tree) (pre @ [name]) = Some (prune node)
           \<and> (\<exists>indent connector. connector \<in> {tee, elbow}
                 \<and> indent @ connector @ name \<in> set (treeToString (prune tree) []))"
    using tree node pr r by (intro conjI)
  then show ?thesis by (intro exI)
qed

theorem user_ignored_name_is_kept_below_the_root_witness:
  "buildTree unasked
     (scan (ignoreFolders [js ''dist'']) [js ''proj/src/dist/a.js'', js ''dist/b.js''] []) Pristine
     = Inr (Node [(js ''proj'', Node [(js ''src'', Node [(js ''dist'',
              Node [(js ''a.js'', Node [])])])])], Pristine)
   \<and> subtree (prune (Node [(js ''proj'', Node [(js ''src'', Node [(js ''dist'',
                   Node [(js ''a.js'', Node [])])])])]))
         [js ''proj'', js ''src'', js ''dist'']
       = Some (prune (Node [(js ''a.js'', Node [])]))"
proof -
  let ?files = "[js ''proj/src/dist/a.js'', js ''dist/b.js'']"
  let ?node = "Node [(js ''a.js'', Node [])]"
  let ?tree = "Node [(js ''proj'', Node [(js ''src'', Node [(js ''dist'', ?node)])])]"
  have clean: "\<forall>path \<in> set ?files. \<forall>part \<in> set (js_split slash path).
                 part \<notin> set Object_prototype_names"
    by code_simp
  have kept: "js ''proj/src/dist/a.js'' \<in> set (scan (ignoreFolders [js ''dist'']) ?files [])"
    by code_simp
  have sp: "js_split slash (js ''proj/src/dist/a.js'') = [js ''proj'', js ''src''] @ js ''dist'' # [js ''a.js'']"
    by code_simp
  have ne: "[js ''proj'', js ''src''] \<noteq> []" by simp
  have u: "js ''dist'' \<in> set [js ''dist'']" by simp
  have na: "js ''dist'' \<notin> set autoIgnored" by code_simp
  have np: "\<forall>part \<in> set [js ''proj'', js ''src'']. part \<notin> set autoIgnored" by code_simp
  have b: "buildTree unasked (scan (ignoreFolders [js ''dist'']) ?files []) Pristine
           = Inr (?tree, Pristine)"
    by code_simp
  have s: "subtree ?tree [js ''proj'', js ''src'', js ''dist''] = Some ?node" by code_simp
  from user_ignored_name_is_kept_below_the_root [where H = unasked, OF clean kept sp ne u na np]
  obtain tree node
    where "buildTree unasked (scan (ignoreFolders [js ''dist'']) ?files []) Pristine
           = Inr (tree, Pristine)"
    and "subtree tree ([js ''proj'', js ''src''] @ [js ''dist'']) = Some node"
    and "subtree (prune tree) ([js ''proj'', js ''src''] @ [js ''dist'']) = Some (prune node)"
    by blast
  with b s have "subtree (prune ?tree) [js ''proj'', js ''src'', js ''dist''] = Some (prune ?node)"
    by simp
  with b show ?thesis by simp
qed

theorem nested_below_node_modules_counterexample:
  "js ''proj/node_modules/foo/x'' \<in> set (scan (ignoreFolders [js ''foo'']) [js ''proj/node_modules/foo/x''] [])
   \<and> js_split slash (js ''proj/node_modules/foo/x'') = [js ''proj'', js ''node_modules'', js ''foo'', js ''x'']
   \<and> buildTree unasked
         (scan (ignoreFolders [js ''foo'']) [js ''proj/node_modules/foo/x''] []) Pristine
       = Inr (Node [(js ''proj'', Node [(js ''node_modules'', Node [(js ''foo'',
                Node [(js ''x'', Node [])])])])], Pristine)
   \<and> prune (Node [(js ''proj'', Node [(js ''node_modules'', Node [(js ''foo'', Node [(js ''x'', Node [])])])])])
       = Node [(js ''proj'', Node [])]
   \<and> subtree (Node [(js ''proj'', Node [])]) [js ''proj'', js ''node_modules'', js ''foo''] = None
   \<and> handlePreview unasked (Some [js ''proj/node_modules/foo/x'']) (Some [js ''foo/y''])
       = Inr \<lparr>rootFolderName = js ''proj'', structure = js_join [newline] [js ''proj'', elbow @ js ''proj''],
              previewContent = js_join [newline] [js ''proj'', elbow @ js ''proj''],
              showGenerateButton = True\<rparr>"
  by code_simp

section \<open>The whole of handlePreview\<close>

lemma pruneOn_result: "pruneOn H tree page = Inr pruned \<Longrightarrow> pruned = prune tree"
  by (cases page) (auto simp: pruneOn_def split: if_splits sum.splits)

lemma handlePreview_result:
  assumes "handlePreview H (Some projectFiles) ignoreFiles = Inr out"
  shows "\<exists>tree page.
           buildTree H (scan (ignoreFolders (userIgnored ignoreFiles)) projectFiles []) Pristine
             = Inr (tree, page)
           \<and> rootFolderName out = firstPart (hd projectFiles)
           \<and> structure out =
               js_join [newline] (structureLines (rootFolderName out) (prune tree))
           \<and> previewContent out = previewOf (structure out)"
proof (cases projectFiles)
  case Nil
  with assms show ?thesis by (simp add: handlePreview_def preview_def)
next
  case (Cons p ps)
  let ?kept = "scan (ignoreFolders (userIgnored ignoreFiles)) (p # ps) []"
  from assms Cons obtain tree page pruned
    where b: "buildTree H ?kept Pristine = Inr (tree, page)"
      and q: "pruneOn H tree page = Inr pruned"
      and o: "out = \<lparr>rootFolderName = firstPart p,
                structure = js_join [newline] (structureLines (firstPart p) pruned),
                previewContent =
                  previewOf (js_join [newline] (structureLines (firstPart p) pruned)),
                showGenerateButton = True\<rparr>"
    by (auto simp: handlePreview_def preview_def Let_def split: sum.splits)
  from pruneOn_result [OF q] b o Cons show ?thesis by simp
qed





lemma handlePreview_host_free:
  assumes "clean_paths (scan (ignoreFolders (userIgnored ignoreFiles)) projectFiles [])"
  shows "handlePreview H (Some projectFiles) ignoreFiles
         = handlePreview H' (Some projectFiles) ignoreFiles"
proof (cases projectFiles)
  case Nil
  then show ?thesis by (simp add: handlePreview_def preview_def)
next
  case (Cons p ps)
  from buildTree_host_free [OF assms, of H H'] obtain tree
    where "buildTree H (scan (ignoreFolders (userIgnored ignoreFiles)) projectFiles []) Pristine
           = Inr (tree, Pristine)"
      and "buildTree H' (scan (ignoreFolders (userIgnored ignoreFiles)) projectFiles []) Pristine
           = Inr (tree, Pristine)"
    by blast
  with Cons show ?thesis
    by (simp add: handlePreview_def preview_def Let_def pruneOn_def)
qed

text \<open>
  C10. When the selection is not empty and the first segment of every path is ignored,
  no path is kept, the tree is empty, and \<open>handlePreview\<close> ends without an error: the
  structure is one line, the first segment of the first path.
\<close>

theorem all_ignored_gives_root_line_only:
  assumes "projectFiles \<noteq> []"
    and "\<forall>relPath \<in> set projectFiles. firstPart relPath \<in> ignoreFolders (userIgnored ignoreFiles)"
  shows "buildTree H (scan (ignoreFolders (userIgnored ignoreFiles)) projectFiles []) Pristine
           = Inr (Node [], Pristine)
    \<and> structureLines (firstPart (hd projectFiles)) (prune (Node [])) = [firstPart (hd projectFiles)]
    \<and> handlePreview H (Some projectFiles) ignoreFiles =
        Inr \<lparr>rootFolderName = firstPart (hd projectFiles),
             structure = firstPart (hd projectFiles),
             previewContent = previewOf (firstPart (hd projectFiles)),
             showGenerateButton = True\<rparr>"
proof -
  from assms(1) obtain p ps where ps: "projectFiles = p # ps" by (cases projectFiles) auto
  have sc: "scan (ignoreFolders (userIgnored ignoreFiles)) projectFiles [] = []"
    using assms(2) by (rule scan_all_ignored)
  have b: "buildTree H [] Pristine = Inr (Node [], Pristine)" by (simp add: buildTree_def)
  have l: "structureLines r (prune (Node [])) = [r]" for r
    by (simp add: structureLines_def prune_empty treeToString_empty)
  show ?thesis
    using sc b l unfolding handlePreview_def preview_def ps
    by (simp add: Let_def pruneOn_def)
qed

theorem all_ignored_gives_root_line_only_witness:
  "handlePreview unasked (Some [js ''node_modules/a.js'', js ''dist/b.js'']) (Some [js ''dist/b.js'']) =
     Inr \<lparr>rootFolderName = js ''node_modules'', structure = js ''node_modules'',
          previewContent = js ''node_modules'', showGenerateButton = True\<rparr>"
proof -
  have n: "[js ''node_modules/a.js'', js ''dist/b.js''] \<noteq> []" by simp
  have i: "\<forall>relPath \<in> set [js ''node_modules/a.js'', js ''dist/b.js''].
             firstPart relPath \<in> ignoreFolders (userIgnored (Some [js ''dist/b.js'']))"
    by code_simp
  have f: "firstPart (hd [js ''node_modules/a.js'', js ''dist/b.js'']) = js ''node_modules''"
    by code_simp
  have p: "previewOf (js ''node_modules'') = js ''node_modules''" by code_simp
  from all_ignored_gives_root_line_only [where H = unasked, OF n i] show ?thesis
    unfolding f p by simp
qed

text \<open>
  C1, as amended. For the four paths of the scenario, no name supplied by the user and
  the root folder proj, the first segment of every path is proj, so proj is the only key
  of the top node of the tree, and the structure has six lines: the root name, then the
  line of the key proj, then the four lines of its children indented below it.
\<close>

theorem scenario_renders_root_twice:
  "handlePreview H (Some [js ''proj/src/index.ts'', js ''proj/src/util.ts'', js ''proj/README.md'',
        js ''proj/node_modules/pkg/index.js'']) None
     = Inr \<lparr>rootFolderName = js ''proj'',
            structure = js_join [newline] [js ''proj'', elbow @ js ''proj'', blank @ tee @ js ''src'',
               blank @ bar @ tee @ js ''index.ts'', blank @ bar @ elbow @ js ''util.ts'',
               blank @ elbow @ js ''README.md''],
            previewContent = js_join [newline] [js ''proj'', elbow @ js ''proj'', blank @ tee @ js ''src'',
               blank @ bar @ tee @ js ''index.ts'', blank @ bar @ elbow @ js ''util.ts'',
               blank @ elbow @ js ''README.md''],
            showGenerateButton = True\<rparr>"
proof -
  let ?files = "[js ''proj/src/index.ts'', js ''proj/src/util.ts'', js ''proj/README.md'',
        js ''proj/node_modules/pkg/index.js'']"
  have "clean_paths (scan (ignoreFolders (userIgnored None)) ?files [])"
    by code_simp
  then have "handlePreview H (Some ?files) None = handlePreview unasked (Some ?files) None"
    by (rule handlePreview_host_free)
  also have "\<dots> = Inr \<lparr>rootFolderName = js ''proj'',
            structure = js_join [newline] [js ''proj'', elbow @ js ''proj'', blank @ tee @ js ''src'',
               blank @ bar @ tee @ js ''index.ts'', blank @ bar @ elbow @ js ''util.ts'',
               blank @ elbow @ js ''README.md''],
            previewContent = js_join [newline] [js ''proj'', elbow @ js ''proj'', blank @ tee @ js ''src'',
               blank @ bar @ tee @ js ''index.ts'', blank @ bar @ elbow @ js ''util.ts'',
               blank @ elbow @ js ''README.md''],
            showGenerateButton = True\<rparr>"
    by code_simp
  finally show ?thesis .
qed

theorem scenario_counterexample:
  "buildTree unasked (scan (ignoreFolders []) [js ''proj/src/index.ts'', js ''proj/src/util.ts'',
        js ''proj/README.md'', js ''proj/node_modules/pkg/index.js''] []) Pristine =
     Inr (Node [(js ''proj'',
            Node [(js ''src'', Node [(js ''index.ts'', Node []), (js ''util.ts'', Node [])]),
                  (js ''README.md'', Node []),
                  (js ''node_modules'', Node [(js ''pkg'', Node [(js ''index.js'', Node [])])])])],
          Pristine)
   \<and> Object_keys (Node [(js ''proj'',
            Node [(js ''src'', Node [(js ''index.ts'', Node []), (js ''util.ts'', Node [])]),
                  (js ''README.md'', Node []),
                  (js ''node_modules'', Node [(js ''pkg'', Node [(js ''index.js'', Node [])])])])])
       = [js ''proj'']
   \<and> structureLines (js ''proj'') (prune (Node [(js ''proj'',
            Node [(js ''src'', Node [(js ''index.ts'', Node []), (js ''util.ts'', Node [])]),
                  (js ''README.md'', Node []),
                  (js ''node_modules'', Node [(js ''pkg'', Node [(js ''index.js'', Node [])])])])]))
       \<noteq> [js ''proj'', tee @ js ''src'', bar @ tee @ js ''index.ts'',
            bar @ elbow @ js ''util.ts'', elbow @ js ''README.md'']"
  by code_simp




section \<open>The preview\<close>

lemma truncation_line_no_newline:
  "newline \<notin> set (js ''... (truncated, total '' @ toString n @ js '' lines)'')"
proof -
  have "newline \<notin> set (js ''... (truncated, total '')" by code_simp
  moreover have "newline \<notin> set (js '' lines)'')" by code_simp
  ultimately show ?thesis by (simp add: toString_digits)
qed

lemma previewOf_lines:
  "previewOf text =
     (if length (js_split newline text) > 100
      then js_join [newline]
             (take 100 (js_split newline text)
              @ [js ''... (truncated, total '' @ toString (length (js_split newline text))
                 @ js '' lines)''])
      else text)"
proof -
  have "take 100 (js_split newline text) \<noteq> []" by (simp add: js_split_nonempty)
  then show ?thesis
    by (simp add: previewOf_def Let_def js_join_snoc join_split)
qed

text \<open>
  C6. With \<open>N\<close> the number of lines of the joined text: when \<open>N\<close> exceeds 100 the preview
  is the first 100 lines and one more line, the summary with \<open>N\<close> in decimal, joined by
  newlines (for 150 lines, the first 100 and the summary for 150); otherwise the preview
  is the text. The structure kept in the state is the whole joined text, and the preview
  is computed from it.
\<close>

theorem preview_truncates_after_100_lines:
  "previewOf text =
     (if length (js_split newline text) > 100
      then js_join [newline]
             (take 100 (js_split newline text)
              @ [js ''... (truncated, total '' @ toString (length (js_split newline text))
                 @ js '' lines)''])
      else text)
   \<and> (if length (js_split newline text) > 100
      then js_split newline (previewOf text) =
             take 100 (js_split newline text)
             @ [js ''... (truncated, total '' @ toString (length (js_split newline text))
                @ js '' lines)'']
      else js_split newline (previewOf text) = js_split newline text)
   \<and> (if length (js_split newline text) = 150
      then js_split newline (previewOf text) =
             take 100 (js_split newline text) @ [js ''... (truncated, total 150 lines)'']
      else True)
   \<and> (handlePreview H (Some projectFiles) ignoreFiles = Inr out \<longrightarrow>
        previewContent out = previewOf (structure out)
        \<and> (\<exists>tree page.
              buildTree H (scan (ignoreFolders (userIgnored ignoreFiles)) projectFiles []) Pristine
                = Inr (tree, page)
              \<and> structure out =
                  js_join [newline] (rootFolderName out # treeToString (prune tree) [])))"
proof -
  let ?lines = "js_split newline text"
  let ?s = "js ''... (truncated, total '' @ toString (length ?lines) @ js '' lines)''"
  note p = previewOf_lines [of "text"]
  have nn: "\<forall>x \<in> set (take 100 ?lines @ [?s]). newline \<notin> set x"
    using js_split_no_sep_in_parts [of _ newline "text"] truncation_line_no_newline
    by (auto dest: in_set_takeD)
  have q: "js_split newline (js_join [newline] (take 100 ?lines @ [?s])) = take 100 ?lines @ [?s]"
    by (rule split_join) (use nn in auto)
  have c2: "if length ?lines > 100
            then js_split newline (previewOf text) = take 100 ?lines @ [?s]
            else js_split newline (previewOf text) = ?lines"
    using p q by simp
  have t: "toString 150 = js ''150''"
    by code_simp
  have u: "js ''... (truncated, total '' @ js ''150'' @ js '' lines)''
           = js ''... (truncated, total 150 lines)''"
    by (simp add: js_def)
  have c3: "if length ?lines = 150
      then js_split newline (previewOf text) =
             take 100 ?lines @ [js ''... (truncated, total 150 lines)'']
      else True"
    using c2 t u by simp
  have c4: "previewContent out = previewOf (structure out)
        \<and> (\<exists>tree page.
              buildTree H (scan (ignoreFolders (userIgnored ignoreFiles)) projectFiles []) Pristine
                = Inr (tree, page)
              \<and> structure out =
                  js_join [newline] (rootFolderName out # treeToString (prune tree) []))"
    if "handlePreview H (Some projectFiles) ignoreFiles = Inr out"
    using handlePreview_result [OF that] by (auto simp: structureLines_def)
  then have c4': "handlePreview H (Some projectFiles) ignoreFiles = Inr out \<longrightarrow>
        previewContent out = previewOf (structure out)
        \<and> (\<exists>tree page.
              buildTree H (scan (ignoreFolders (userIgnored ignoreFiles)) projectFiles []) Pristine
                = Inr (tree, page)
              \<and> structure out =
                  js_join [newline] (rootFolderName out # treeToString (prune tree) []))"
    by (rule impI)
  from p c2 c3 c4' show ?thesis by (intro conjI)
qed

theorem preview_truncates_after_100_lines_witness:
  "previewOf (js_join [newline] (replicate 150 (js ''x'')))
     = js_join [newline] (replicate 100 (js ''x'') @ [js ''... (truncated, total 150 lines)''])
   \<and> previewOf (js_join [newline] (replicate 100 (js ''x'')))
     = js_join [newline] (replicate 100 (js ''x''))
   \<and> handlePreview unasked (Some [js ''proj/a'']) None
     = Inr \<lparr>rootFolderName = js ''proj'',
            structure = js_join [newline] [js ''proj'', elbow @ js ''proj'', blank @ elbow @ js ''a''],
            previewContent = js_join [newline] [js ''proj'', elbow @ js ''proj'', blank @ elbow @ js ''a''],
            showGenerateButton = True\<rparr>"
proof -
  let ?t150 = "js_join [newline] (replicate 150 (js ''x''))"
  let ?t100 = "js_join [newline] (replicate 100 (js ''x''))"
  let ?out = "\<lparr>rootFolderName = js ''proj'',
            structure = js_join [newline] [js ''proj'', elbow @ js ''proj'', blank @ elbow @ js ''a''],
            previewContent = js_join [newline] [js ''proj'', elbow @ js ''proj'', blank @ elbow @ js ''a''],
            showGenerateButton = True\<rparr>"
  have s150: "js_split newline ?t150 = replicate 150 (js ''x'')" by code_simp
  have s100: "js_split newline ?t100 = replicate 100 (js ''x'')" by code_simp
  have t150: "take 100 (replicate 150 (js ''x'')) = replicate 100 (js ''x'')" by simp
  have ts: "js ''... (truncated, total '' @ toString 150 @ js '' lines)''
            = js ''... (truncated, total 150 lines)''"
    by code_simp
  have h: "handlePreview unasked (Some [js ''proj/a'']) None = Inr ?out" by code_simp
  from preview_truncates_after_100_lines [of ?t150 unasked]
  have "previewOf ?t150 = js_join [newline] (replicate 100 (js ''x'') @ [js ''... (truncated, total 150 lines)''])"
    unfolding s150 by (simp add: ts)
  moreover from preview_truncates_after_100_lines [of ?t100 unasked]
  have "previewOf ?t100 = ?t100"
    unfolding s100 by simp
  ultimately show ?thesis using h by simp
qed

section \<open>The generated document\<close>

lemma readme_lines:
  "js_split newline (readmeContent structureText) =
     [heading, [], js ''Below is the structure of the project:'', [], fence]
     @ js_split newline structureText @ [fence]"
proof -
  have h: "js_split newline heading = [heading]"
    by (rule js_split_no_sep) code_simp
  have b: "js_split newline (js ''Below is the structure of the project:'')
           = [js ''Below is the structure of the project:'']"
    by (rule js_split_no_sep) code_simp
  have f: "js_split newline fence = [fence]"
    by (rule js_split_no_sep) code_simp
  have "readmeContent structureText =
          heading @ newline # ([] @ newline # (js ''Below is the structure of the project:''
            @ newline # ([] @ newline # (fence @ newline # (structureText @ newline # fence)))))"
    by (simp add: readmeContent_def)
  then show ?thesis
    by (simp add: js_split_append h b f)
qed

lemma fence_is_fence_line: "is_fence_line fence"
  by code_simp

lemma template_lines_not_fences:
  "\<not> is_fence_line heading" "\<not> is_fence_line []"
  "\<not> is_fence_line (js ''Below is the structure of the project:'')"
  by code_simp+

text \<open>
  C7, as amended. When the structure and the folder name are both non-empty, the document
  is the template: the heading, an empty line, the sentence, an empty line, a fence, the
  structure and a fence. Its lines are these five, the lines of the structure and the
  closing fence; when no line of the structure starts with three backticks, the lines of
  the document that do are exactly the two fences of the template.
\<close>

theorem readme_is_the_template:
  assumes "structureText \<noteq> []" and "folderName \<noteq> []"
  shows "handleGenerateReadme structureText folderName =
           Inr (js ''# Project File and Folder Structure'' @ [newline, newline]
                @ js ''Below is the structure of the project:'' @ [newline, newline]
                @ js ''```'' @ [newline] @ structureText @ [newline] @ js ''```'')
         \<and> js_split newline (readmeContent structureText) =
             [js ''# Project File and Folder Structure'', [],
              js ''Below is the structure of the project:'', [], js ''```'']
             @ js_split newline structureText @ [js ''```'']
         \<and> ((\<forall>line \<in> set (js_split newline structureText). \<not> is_fence_line line) \<longrightarrow>
              filter is_fence_line (js_split newline (readmeContent structureText))
              = [js ''```'', js ''```''])"
proof -
  have c1: "handleGenerateReadme structureText folderName =
           Inr (js ''# Project File and Folder Structure'' @ [newline, newline]
                @ js ''Below is the structure of the project:'' @ [newline, newline]
                @ js ''```'' @ [newline] @ structureText @ [newline] @ js ''```'')"
    using assms by (simp add: handleGenerateReadme_def readmeContent_def heading_def fence_def)
  have c2: "js_split newline (readmeContent structureText) =
             [js ''# Project File and Folder Structure'', [],
              js ''Below is the structure of the project:'', [], js ''```'']
             @ js_split newline structureText @ [js ''```'']"
    using readme_lines [of structureText] by (simp add: heading_def fence_def)
  have c3: "filter is_fence_line (js_split newline (readmeContent structureText))
              = [js ''```'', js ''```'']"
    if "\<forall>line \<in> set (js_split newline structureText). \<not> is_fence_line line"
  proof -
    from that have "filter is_fence_line (js_split newline structureText) = []"
      by (simp add: filter_empty_conv)
    then have "filter is_fence_line (js_split newline (readmeContent structureText)) = [fence, fence]"
      by (simp add: readme_lines fence_is_fence_line template_lines_not_fences)
    then show ?thesis by (simp add: fence_def)
  qed
  then have c3': "(\<forall>line \<in> set (js_split newline structureText). \<not> is_fence_line line) \<longrightarrow>
              filter is_fence_line (js_split newline (readmeContent structureText))
              = [js ''```'', js ''```'']"
    by (rule impI)
  from c1 c2 c3' show ?thesis by (intro conjI)
qed

theorem readme_is_the_template_witness:
  "handlePreview unasked (Some [js ''proj/a'']) None
     = Inr \<lparr>rootFolderName = js ''proj'',
            structure = js_join [newline] [js ''proj'', elbow @ js ''proj'', blank @ elbow @ js ''a''],
            previewContent = js_join [newline] [js ''proj'', elbow @ js ''proj'', blank @ elbow @ js ''a''],
            showGenerateButton = True\<rparr>
   \<and> handleGenerateReadme
       (js_join [newline] [js ''proj'', elbow @ js ''proj'', blank @ elbow @ js ''a'']) (js ''proj'')
     = Inr (js_join [newline]
             [js ''# Project File and Folder Structure'', [],
              js ''Below is the structure of the project:'', [], js ''```'',
              js ''proj'', elbow @ js ''proj'', blank @ elbow @ js ''a'', js ''```''])
   \<and> filter is_fence_line
       (js_split newline
          (readmeContent (js_join [newline] [js ''proj'', elbow @ js ''proj'', blank @ elbow @ js ''a''])))
     = [js ''```'', js ''```'']"
proof -
  let ?s = "js_join [newline] [js ''proj'', elbow @ js ''proj'', blank @ elbow @ js ''a'']"
  have h: "handlePreview unasked (Some [js ''proj/a'']) None
     = Inr \<lparr>rootFolderName = js ''proj'', structure = ?s, previewContent = ?s,
            showGenerateButton = True\<rparr>"
    by code_simp
  have n1: "?s \<noteq> []" by code_simp
  have n2: "js ''proj'' \<noteq> []" by code_simp
  have nf: "\<forall>line \<in> set (js_split newline ?s). \<not> is_fence_line line" by code_simp
  have e: "js ''# Project File and Folder Structure'' @ [newline, newline]
                @ js ''Below is the structure of the project:'' @ [newline, newline]
                @ js ''```'' @ [newline] @ ?s @ [newline] @ js ''```''
           = js_join [newline]
             [js ''# Project File and Folder Structure'', [],
              js ''Below is the structure of the project:'', [], js ''```'',
              js ''proj'', elbow @ js ''proj'', blank @ elbow @ js ''a'', js ''```'']"
    by simp
  note t = readme_is_the_template [OF n1 n2]
  from t have "handleGenerateReadme ?s (js ''proj'') =
           Inr (js ''# Project File and Folder Structure'' @ [newline, newline]
                @ js ''Below is the structure of the project:'' @ [newline, newline]
                @ js ''```'' @ [newline] @ ?s @ [newline] @ js ''```'')"
    by (rule conjunct1)
  then have a: "handleGenerateReadme ?s (js ''proj'') =
     Inr (js_join [newline]
             [js ''# Project File and Folder Structure'', [],
              js ''Below is the structure of the project:'', [], js ''```'',
              js ''proj'', elbow @ js ''proj'', blank @ elbow @ js ''a'', js ''```''])"
    unfolding e .
  from t nf have c: "filter is_fence_line (js_split newline (readmeContent ?s))
                     = [js ''```'', js ''```'']"
    by blast
  from h a c show ?thesis by (intro conjI)
qed

theorem readme_counterexample:
  "handlePreview unasked (Some [js ''```/a'']) None
     = Inr \<lparr>rootFolderName = js ''```'',
            structure = js_join [newline] [js ''```'', elbow @ js ''```'', blank @ elbow @ js ''a''],
            previewContent = js_join [newline] [js ''```'', elbow @ js ''```'', blank @ elbow @ js ''a''],
            showGenerateButton = True\<rparr>
   \<and> filter is_fence_line
       (js_split newline
          (readmeContent (js_join [newline] [js ''```'', elbow @ js ''```'', blank @ elbow @ js ''a''])))
     = [js ''```'', js ''```'', js ''```'']
   \<and> handlePreview unasked (Some [js ''/a'']) None
     = Inr \<lparr>rootFolderName = [],
            structure = js_join [newline] [[], elbow, blank @ elbow @ js ''a''],
            previewContent = js_join [newline] [[], elbow, blank @ elbow @ js ''a''],
            showGenerateButton = True\<rparr>
   \<and> handleGenerateReadme (js_join [newline] [[], elbow, blank @ elbow @ js ''a'']) []
     = Inl PreconditionError"
  by code_simp

end
